theory Spec2Isabelle
  imports Main "HOL-Library.Word" "HOL-Library.List_Lexorder" "HOL-Library.Multiset"
begin

unbundle bit_operations_syntax

section \<open>Strings, bytes and the runtime\<close>

text \<open>
  A JavaScript string is a sequence of 16-bit code units; every scan of the source
  (\<open>source[i]\<close>, \<open>trim\<close>, the regular expressions) works on code units. A
  \<open>Uint8Array\<close> is a list of bytes. \<open>str\<close> turns an ASCII literal into a
  JavaScript string.
\<close>

type_synonym jschar = "16 word"
type_synonym jsstring = "jschar list"
type_synonym byte = "8 word"

definition str :: "string \<Rightarrow> jsstring" where
  "str s = map (\<lambda>c. of_char c) s"

text \<open>A \<open>Date\<close> object holds a time value in milliseconds, or \<open>NaN\<close>.\<close>

datatype jsdate = Date int | InvalidDate

text \<open>
  What the browser provides and the source only calls: the SHA-256 digest of
  \<open>crypto.subtle\<close>, Unicode normalisation and case mapping, and the \<open>Date\<close>
  constructors and parser. They are parameters of the model.
\<close>

record env =
  digest :: "byte list \<Rightarrow> byte list"
  nfc :: "jsstring \<Rightarrow> jsstring"
  toLowerCase :: "jsstring \<Rightarrow> jsstring"
  newDateIso :: "jsstring \<Rightarrow> jsdate"
  newDateLocal :: "int \<Rightarrow> int \<Rightarrow> int \<Rightarrow> int \<Rightarrow> int \<Rightarrow> int \<Rightarrow> int \<Rightarrow> jsdate"
  dateParse :: "jsstring \<Rightarrow> int option"

text \<open>\<open>Array.prototype.join\<close> on an array of strings.\<close>

fun join :: "jsstring \<Rightarrow> jsstring list \<Rightarrow> jsstring" where
  "join sep [] = []"
| "join sep [x] = x"
| "join sep (x # y # ys) = x @ sep @ join sep (y # ys)"

section \<open>Field configuration\<close>

record field_spec =
  label :: jsstring
  canonical :: jsstring

record active_field = field_spec +
  headerName :: "jsstring option"

definition FIELD_CONFIG :: "field_spec list" where
  "FIELD_CONFIG =
     [\<lparr>label = str ''Title'', canonical = str ''title''\<rparr>,
      \<lparr>label = str ''Username'', canonical = str ''username''\<rparr>,
      \<lparr>label = str ''Password'', canonical = str ''password''\<rparr>,
      \<lparr>label = str ''Last Modified'', canonical = str ''last modified''\<rparr>]"

definition HASH_FIELDS :: "jsstring list" where
  "HASH_FIELDS = map canonical FIELD_CONFIG"

section \<open>Row hasher\<close>

text \<open>
  \<open>buildHashInput\<close>: the normalized entry is an object keyed by canonical name;
  \<open>normalizedEntry[field] ?? ""\<close> reads a missing key as the empty string.
\<close>

definition buildHashInput :: "(jsstring \<rightharpoonup> jsstring) \<Rightarrow> jsstring list \<Rightarrow> jsstring" where
  "buildHashInput normalizedEntry selectedCanonical =
     (let selectedSet = set selectedCanonical;
          parts = map (\<lambda>field. case normalizedEntry field of Some v \<Rightarrow> v | None \<Rightarrow> [])
                      (filter (\<lambda>field. field \<in> selectedSet) HASH_FIELDS)
      in join (str ''|'') parts)"

section \<open>Field normalizer\<close>

text \<open>
  The code units that \<open>String.prototype.trim\<close> removes and that \<open>\s\<close> matches:
  ECMAScript's WhiteSpace and LineTerminator.
\<close>

definition isWhiteSpace :: "jschar \<Rightarrow> bool" where
  "isWhiteSpace c \<longleftrightarrow>
     c \<in> {0x09, 0x0A, 0x0B, 0x0C, 0x0D, 0x20, 0xA0, 0x1680, 0x2028, 0x2029, 0x202F,
          0x205F, 0x3000, 0xFEFF} \<or> (0x2000 \<le> c \<and> c \<le> 0x200A)"

definition trim :: "jsstring \<Rightarrow> jsstring" where
  "trim s = rev (dropWhile isWhiteSpace (rev (dropWhile isWhiteSpace s)))"

text \<open>\<open>text.replace(/\s+/g, " ")\<close>: every maximal run of white space becomes one space.\<close>

function collapseWhitespace :: "jsstring \<Rightarrow> jsstring" where
  "collapseWhitespace [] = []"
| "collapseWhitespace (c # cs) =
     (if isWhiteSpace c then 0x20 # collapseWhitespace (dropWhile isWhiteSpace cs)
      else c # collapseWhitespace cs)"
  by pat_completeness auto
termination
  by (relation "measure length") (auto simp: le_imp_less_Suc length_dropWhile_le)

text \<open>
  \<open>normalizeText\<close>: a raw cell is a string, or \<open>undefined\<close> (\<open>None\<close>) when the
  entry has no such key.
\<close>

definition normalizeText :: "env \<Rightarrow> jsstring option \<Rightarrow> jsstring" where
  "normalizeText e value =
     (case value of
        None \<Rightarrow> []
      | Some v \<Rightarrow>
          (let text = trim v
           in if text = [] then [] else nfc e (collapseWhitespace text)))"

subsection \<open>The strict date pattern\<close>

text \<open>
  The regular expression of \<open>parseFlexibleDate\<close>, with its eight capture groups. The
  optional groups are greedy and the matcher backtracks, so every group is modelled by
  the list of its possible matches in the order the matcher tries them; the match is the
  first combination that reaches the end of the input. The flag \<open>i\<close> lets \<open>T\<close> and
  \<open>Z\<close> match in either case; \<open>\d\<close> is an ASCII digit.
\<close>

record iso_match =
  year :: jsstring
  month :: jsstring
  day :: jsstring
  hour :: "jsstring option"
  minute :: "jsstring option"
  second :: "jsstring option"
  millisecond :: "jsstring option"
  zone :: "jsstring option"

definition isDigit :: "jschar \<Rightarrow> bool" where
  "isDigit c \<longleftrightarrow> 0x30 \<le> c \<and> c \<le> 0x39"

text \<open>\<open>\d{n}\<close> at the head of the input: the digits and the rest.\<close>

definition digitsN :: "nat \<Rightarrow> jsstring \<Rightarrow> (jsstring \<times> jsstring) list" where
  "digitsN n s =
     (if n \<le> length s \<and> list_all isDigit (take n s) then [(take n s, drop n s)] else [])"

text \<open>A literal code unit at the head of the input.\<close>

definition lit :: "jschar set \<Rightarrow> jsstring \<Rightarrow> jsstring list" where
  "lit cs s = (case s of c # r \<Rightarrow> if c \<in> cs then [r] else [] | [] \<Rightarrow> [])"

text \<open>\<open>(?:\.(\d{1,3}))?\<close>: three digits first, then two, then one, then nothing.\<close>

definition rxFraction :: "jsstring \<Rightarrow> (jsstring option \<times> jsstring) list" where
  "rxFraction s =
     [(Some ms, r). r0 \<leftarrow> lit {0x2E} s, n \<leftarrow> [3, 2, 1], (ms, r) \<leftarrow> digitsN n r0]
     @ [(None, s)]"

text \<open>\<open>(?::(\d{2})(?:\.(\d{1,3}))?)?\<close>\<close>

definition rxSeconds :: "jsstring \<Rightarrow> (jsstring option \<times> jsstring option \<times> jsstring) list" where
  "rxSeconds s =
     [(Some sec, ms, r). r0 \<leftarrow> lit {0x3A} s, (sec, r1) \<leftarrow> digitsN 2 r0, (ms, r) \<leftarrow> rxFraction r1]
     @ [(None, None, s)]"

text \<open>\<open>(?:[ T](\d{2}):(\d{2})(?::(\d{2})(?:\.(\d{1,3}))?)?)?\<close>\<close>

definition rxTime ::
  "jsstring \<Rightarrow> (jsstring option \<times> jsstring option \<times> jsstring option \<times> jsstring option \<times> jsstring) list"
where
  "rxTime s =
     [(Some h, Some mi, sec, ms, r).
        r0 \<leftarrow> lit {0x20, 0x54, 0x74} s, (h, r1) \<leftarrow> digitsN 2 r0, r2 \<leftarrow> lit {0x3A} r1,
        (mi, r3) \<leftarrow> digitsN 2 r2, (sec, ms, r) \<leftarrow> rxSeconds r3]
     @ [(None, None, None, None, s)]"

text \<open>\<open>(?: ?(Z|[+-]\d{2}:\d{2}))?\<close>; the captured zone is the text after the space.\<close>

definition rxZoneBody :: "jsstring \<Rightarrow> (jsstring \<times> jsstring) list" where
  "rxZoneBody s =
     [(take 1 s, r). r \<leftarrow> lit {0x5A, 0x7A} s]
     @ [(take 6 s, r). r0 \<leftarrow> lit {0x2B, 0x2D} s, (hh, r1) \<leftarrow> digitsN 2 r0,
                        r2 \<leftarrow> lit {0x3A} r1, (mm, r) \<leftarrow> digitsN 2 r2]"

definition rxZone :: "jsstring \<Rightarrow> (jsstring option \<times> jsstring) list" where
  "rxZone s =
     [(Some z, r). r0 \<leftarrow> lit {0x20} s @ [s], (z, r) \<leftarrow> rxZoneBody r0]
     @ [(None, s)]"

definition isoMatch :: "jsstring \<Rightarrow> iso_match option" where
  "isoMatch value =
     (case [\<lparr>year = y, month = mo, day = d, hour = h, minute = mi, second = sec,
              millisecond = ms, zone = z\<rparr>.
              (y, r0) \<leftarrow> digitsN 4 value, r1 \<leftarrow> lit {0x2D} r0, (mo, r2) \<leftarrow> digitsN 2 r1,
              r3 \<leftarrow> lit {0x2D} r2, (d, r4) \<leftarrow> digitsN 2 r3,
              (h, mi, sec, ms, r5) \<leftarrow> rxTime r4, (z, r6) \<leftarrow> rxZone r5, r6 = []]
      of [] \<Rightarrow> None | m # _ \<Rightarrow> Some m)"

subsection \<open>Dates\<close>

datatype error = RangeError | TypeError

text \<open>\<open>padStart\<close>, \<open>padEnd\<close> with a one-character filler, and \<open>slice(0, n)\<close>.\<close>

definition padStart :: "nat \<Rightarrow> jschar \<Rightarrow> jsstring \<Rightarrow> jsstring" where
  "padStart n c s = replicate (n - length s) c @ s"

definition padEnd :: "nat \<Rightarrow> jschar \<Rightarrow> jsstring \<Rightarrow> jsstring" where
  "padEnd n c s = s @ replicate (n - length s) c"

text \<open>\<open>Number\<close> on a string of decimal digits, the only strings the pattern captures.\<close>

definition toNumber :: "jsstring \<Rightarrow> int" where
  "toNumber s = foldl (\<lambda>n c. 10 * n + (uint c - 48)) 0 s"

text \<open>
  \<open>if (!Number.isNaN(date.getTime())) return date;\<close> and, for the invalid date, the code
  that follows.
\<close>

definition returnIfValid :: "jsdate \<Rightarrow> jsdate option \<Rightarrow> jsdate option" where
  "returnIfValid date otherwise =
     (case date of Date t \<Rightarrow> Some (Date t) | InvalidDate \<Rightarrow> otherwise)"

text \<open>A capture group is truthy when it took part in the match and is not empty.\<close>

definition captured :: "jsstring option \<Rightarrow> bool" where
  "captured g \<longleftrightarrow> g \<noteq> None \<and> g \<noteq> Some []"

definition groupOr :: "jsstring option \<Rightarrow> jsstring \<Rightarrow> jsstring" where
  "groupOr g d = (case g of Some x \<Rightarrow> x | None \<Rightarrow> d)"

definition numberOr0 :: "jsstring option \<Rightarrow> int" where
  "numberOr0 g = (case g of Some x \<Rightarrow> toNumber x | None \<Rightarrow> 0)"

definition parseFlexibleDate :: "env \<Rightarrow> jsstring \<Rightarrow> jsdate option" where
  "parseFlexibleDate e value =
     (let fallback = (case dateParse e value of
                        Some fallbackTimestamp \<Rightarrow> Some (Date fallbackTimestamp)
                      | None \<Rightarrow> None)
      in case isoMatch value of
           None \<Rightarrow> fallback
         | Some m \<Rightarrow>
             (let ms = (if captured (millisecond m)
                        then take 3 (padEnd 3 0x30 (groupOr (millisecond m) []))
                        else str ''000'');
                  baseTime = map (padStart 2 0x30)
                               [groupOr (hour m) (str ''00''), groupOr (minute m) (str ''00''),
                                groupOr (second m) (str ''00'')];
                  core = year m @ str ''-'' @ month m @ str ''-'' @ day m @ str ''T''
                         @ join (str '':'') baseTime @ str ''.''
                         @ (if ms = [] then str ''000'' else ms)
              in if captured (zone m) then
                   (let z = groupOr (zone m) [];
                        isoString = core @ (if z = str ''Z'' then str ''Z'' else z)
                    in returnIfValid (newDateIso e isoString) fallback)
                 else
                   returnIfValid
                     (newDateLocal e (toNumber (year m)) (toNumber (month m) - 1)
                        (toNumber (day m)) (numberOr0 (hour m)) (numberOr0 (minute m))
                        (numberOr0 (second m)) (toNumber ms))
                     fallback))"

text \<open>
  \<open>Date.prototype.toISOString\<close>, as ECMAScript defines it: a \<open>RangeError\<close> on an
  invalid date, else the UTC fields of the time value as
  \<open>YYYY-MM-DDTHH:mm:ss.sssZ\<close>, the year with a sign and six digits outside 0..9999.
\<close>

definition digitChar :: "nat \<Rightarrow> jschar" where
  "digitChar k = str ''0123456789'' ! k"

fun decimal :: "nat \<Rightarrow> nat \<Rightarrow> jsstring" where
  "decimal 0 n = []"
| "decimal (Suc w) n = decimal w (n div 10) @ [digitChar (n mod 10)]"

text \<open>Year, month (1..12) and day of the month of a day number counted from 1970-01-01.\<close>

definition civilFromDays :: "int \<Rightarrow> int \<times> nat \<times> nat" where
  "civilFromDays days =
     (let z = days + 719468;
          era = z div 146097;
          doe = z - era * 146097;
          yoe = (doe - doe div 1460 + doe div 36524 - doe div 146096) div 365;
          doy = doe - (365 * yoe + yoe div 4 - yoe div 100);
          mp = (5 * doy + 2) div 153;
          d = doy - (153 * mp + 2) div 5 + 1;
          m = (if mp < 10 then mp + 3 else mp - 9);
          y = yoe + era * 400 + (if m \<le> 2 then 1 else 0)
      in (y, nat m, nat d))"

definition isoYear :: "int \<Rightarrow> jsstring" where
  "isoYear y =
     (if 0 \<le> y \<and> y \<le> 9999 then decimal 4 (nat y)
      else (if y < 0 then str ''-'' else str ''+'') @ decimal 6 (nat \<bar>y\<bar>))"

text \<open>The part of the ISO string up to the seconds.\<close>

definition isoSeconds :: "int \<Rightarrow> jsstring" where
  "isoSeconds t =
     (let (y, m, d) = civilFromDays (t div 86400000);
          msInDay = nat (t mod 86400000)
      in isoYear y @ str ''-'' @ decimal 2 m @ str ''-'' @ decimal 2 d @ str ''T''
         @ decimal 2 (msInDay div 3600000) @ str '':''
         @ decimal 2 (msInDay div 60000 mod 60) @ str '':''
         @ decimal 2 (msInDay div 1000 mod 60))"

definition toISOString :: "jsdate \<Rightarrow> error + jsstring" where
  "toISOString d =
     (case d of
        InvalidDate \<Rightarrow> Inl RangeError
      | Date t \<Rightarrow> Inr (isoSeconds t @ str ''.'' @ decimal 3 (nat (t mod 1000)) @ str ''Z''))"

text \<open>
  \<open>s.replace(/\.\d{3}Z$/, "Z")\<close>: the pattern is anchored at the end, so it can only
  match the last five code units.
\<close>

definition replaceMillisZ :: "jsstring \<Rightarrow> jsstring" where
  "replaceMillisZ s =
     (let n = length s; tail = drop (n - 5) s
      in if 5 \<le> n \<and> tail ! 0 = 0x2E \<and> isDigit (tail ! 1) \<and> isDigit (tail ! 2)
            \<and> isDigit (tail ! 3) \<and> tail ! 4 = 0x5A
         then take (n - 5) s @ str ''Z'' else s)"

definition formatUtcIso :: "jsdate \<Rightarrow> error + jsstring" where
  "formatUtcIso d = (case toISOString d of Inl err \<Rightarrow> Inl err | Inr s \<Rightarrow> Inr (replaceMillisZ s))"

definition normalizeDate :: "env \<Rightarrow> jsstring option \<Rightarrow> error + jsstring" where
  "normalizeDate e value =
     (let normalizedText = normalizeText e value
      in if normalizedText = [] then Inr []
         else (case parseFlexibleDate e normalizedText of
                 None \<Rightarrow> Inr []
               | Some parsedDate \<Rightarrow> formatUtcIso parsedDate))"

section \<open>Hashing\<close>

text \<open>
  \<open>TextEncoder.encode\<close>: UTF-8 of the code points of the string, an unpaired
  surrogate encoded as U+FFFD.
\<close>

definition isLeadSurrogate :: "jschar \<Rightarrow> bool" where
  "isLeadSurrogate c \<longleftrightarrow> 0xD800 \<le> c \<and> c \<le> 0xDBFF"

definition isTrailSurrogate :: "jschar \<Rightarrow> bool" where
  "isTrailSurrogate c \<longleftrightarrow> 0xDC00 \<le> c \<and> c \<le> 0xDFFF"

definition utf8CodePoint :: "nat \<Rightarrow> byte list" where
  "utf8CodePoint cp =
     (if cp < 0x80 then [of_nat cp]
      else if cp < 0x800 then [of_nat (0xC0 + cp div 64), of_nat (0x80 + cp mod 64)]
      else if cp < 0x10000 then
        [of_nat (0xE0 + cp div 4096), of_nat (0x80 + cp div 64 mod 64), of_nat (0x80 + cp mod 64)]
      else
        [of_nat (0xF0 + cp div 262144), of_nat (0x80 + cp div 4096 mod 64),
         of_nat (0x80 + cp div 64 mod 64), of_nat (0x80 + cp mod 64)])"

fun encode :: "jsstring \<Rightarrow> byte list" where
  "encode [] = []"
| "encode [c] =
     (if isLeadSurrogate c \<or> isTrailSurrogate c then utf8CodePoint 0xFFFD
      else utf8CodePoint (unat c))"
| "encode (c # d # cs) =
     (if isLeadSurrogate c \<and> isTrailSurrogate d then
        utf8CodePoint (0x10000 + (unat c - 0xD800) * 1024 + (unat d - 0xDC00)) @ encode cs
      else if isLeadSurrogate c \<or> isTrailSurrogate c then utf8CodePoint 0xFFFD @ encode (d # cs)
      else utf8CodePoint (unat c) @ encode (d # cs))"

text \<open>\<open>byte.toString(16).padStart(2, "0")\<close> for every byte, joined.\<close>

definition hexDigitChar :: "nat \<Rightarrow> jschar" where
  "hexDigitChar k = str ''0123456789abcdef'' ! k"

definition bytesToHex :: "byte list \<Rightarrow> jsstring" where
  "bytesToHex bytes =
     concat (map (\<lambda>byte. [hexDigitChar (unat byte div 16), hexDigitChar (unat byte mod 16)]) bytes)"

definition sha256Hex :: "env \<Rightarrow> jsstring \<Rightarrow> jsstring" where
  "sha256Hex e text = bytesToHex (digest e (encode text))"

text \<open>
  \<open>parseInt(s, 16)\<close>: leading white space, a sign and a \<open>0x\<close> prefix are skipped, then
  the longest run of hexadecimal digits is read; \<open>None\<close> is \<open>NaN\<close>. Storing into a
  \<open>Uint8Array\<close> turns \<open>NaN\<close> into 0 and reduces modulo 256.
\<close>

definition hexValue :: "jschar \<Rightarrow> int option" where
  "hexValue c =
     (if 0x30 \<le> c \<and> c \<le> 0x39 then Some (uint c - 0x30)
      else if 0x61 \<le> c \<and> c \<le> 0x66 then Some (uint c - 0x61 + 10)
      else if 0x41 \<le> c \<and> c \<le> 0x46 then Some (uint c - 0x41 + 10)
      else None)"

definition parseInt16 :: "jsstring \<Rightarrow> int option" where
  "parseInt16 s =
     (let s1 = dropWhile isWhiteSpace s;
          sign = (case s1 of c # r \<Rightarrow> if c = 0x2D then - 1 else 1 | [] \<Rightarrow> (1::int));
          s2 = (case s1 of c # r \<Rightarrow> if c = 0x2D \<or> c = 0x2B then r else s1 | [] \<Rightarrow> s1);
          s3 = (case s2 of c # x # r \<Rightarrow> if c = 0x30 \<and> (x = 0x78 \<or> x = 0x58) then r else s2
                | _ \<Rightarrow> s2);
          ds = takeWhile (\<lambda>c. hexValue c \<noteq> None) s3
      in if ds = [] then None
         else Some (sign * foldl (\<lambda>n c. 16 * n + (case hexValue c of Some v \<Rightarrow> v | None \<Rightarrow> 0)) 0 ds))"

definition toUint8 :: "int option \<Rightarrow> byte" where
  "toUint8 n = (case n of None \<Rightarrow> 0 | Some v \<Rightarrow> of_int v)"

definition hexToBytes :: "jsstring \<Rightarrow> byte list" where
  "hexToBytes hex =
     (if hex = [] then []
      else (let normalized = (if even (length hex) then hex else 0x30 # hex)
            in map (\<lambda>k. toUint8 (parseInt16 (take 2 (drop (2 * k) normalized))))
                   [0..<length normalized div 2]))"

definition doubleSha256Hex :: "env \<Rightarrow> jsstring \<Rightarrow> jsstring \<Rightarrow> jsstring" where
  "doubleSha256Hex e leftHex rightHex =
     (let leftBytes = hexToBytes leftHex;
          rightBytes = hexToBytes rightHex;
          combined = leftBytes @ rightBytes;
          first = digest e combined;
          second = digest e first
      in bytesToHex second)"

section \<open>Normalizing and canonicalizing an entry\<close>

text \<open>
  An entry maps header names to raw cells. \<open>entry[field.headerName]\<close> with a
  \<open>null\<close> header name reads the property \<open>"null"\<close>.
\<close>

type_synonym entry = "jsstring \<rightharpoonup> jsstring"

definition entryGet :: "entry \<Rightarrow> jsstring option \<Rightarrow> jsstring option" where
  "entryGet entry name = (case name of Some h \<Rightarrow> entry h | None \<Rightarrow> entry (str ''null''))"

definition normalizeValue :: "env \<Rightarrow> jsstring \<Rightarrow> jsstring option \<Rightarrow> error + jsstring" where
  "normalizeValue e canonicalName rawValue =
     (if canonicalName = str ''last modified'' then normalizeDate e rawValue
      else Inr (normalizeText e rawValue))"

fun normalizeLoop ::
  "env \<Rightarrow> entry \<Rightarrow> active_field list \<Rightarrow> (jsstring \<rightharpoonup> jsstring) \<Rightarrow> error + (jsstring \<rightharpoonup> jsstring)"
where
  "normalizeLoop e entry [] normalized = Inr normalized"
| "normalizeLoop e entry (field # rest) normalized =
     (case normalizeValue e (canonical field) (entryGet entry (headerName field)) of
        Inl err \<Rightarrow> Inl err
      | Inr v \<Rightarrow> normalizeLoop e entry rest (normalized(canonical field \<mapsto> v)))"

definition normalizeEntry :: "env \<Rightarrow> entry \<Rightarrow> active_field list \<Rightarrow> error + (jsstring \<rightharpoonup> jsstring)" where
  "normalizeEntry e entry selectedFields = normalizeLoop e entry selectedFields Map.empty"

text \<open>
  \<open>JSON.stringify\<close> of an object whose values are strings. The object keeps its keys
  in insertion order; assigning to a key it has keeps the key's place. In a quoted
  string the backslash is the code unit \<open>0x5C\<close> and the quote \<open>0x22\<close>; an unpaired
  surrogate and a control character without a short escape become \<open>\uXXXX\<close>.
\<close>

type_synonym jsobject = "(jsstring \<times> jsstring) list"

fun objectSet :: "jsobject \<Rightarrow> jsstring \<Rightarrow> jsstring \<Rightarrow> jsobject" where
  "objectSet [] k v = [(k, v)]"
| "objectSet ((k', v') # kvs) k v =
     (if k' = k then (k, v) # kvs else (k', v') # objectSet kvs k v)"

definition unicodeEscape :: "jschar \<Rightarrow> jsstring" where
  "unicodeEscape c =
     [0x5C, 0x75] @ [hexDigitChar (unat c div 4096), hexDigitChar (unat c div 256 mod 16),
                  hexDigitChar (unat c div 16 mod 16), hexDigitChar (unat c mod 16)]"

fun quoteBody :: "jsstring \<Rightarrow> jsstring" where
  "quoteBody [] = []"
| "quoteBody (c # cs) =
     (if c = 0x08 then [0x5C, 0x62] @ quoteBody cs
      else if c = 0x09 then [0x5C, 0x74] @ quoteBody cs
      else if c = 0x0A then [0x5C, 0x6E] @ quoteBody cs
      else if c = 0x0C then [0x5C, 0x66] @ quoteBody cs
      else if c = 0x0D then [0x5C, 0x72] @ quoteBody cs
      else if c = 0x22 then [0x5C, 0x22] @ quoteBody cs
      else if c = 0x5C then [0x5C, 0x5C] @ quoteBody cs
      else if c < 0x20 then unicodeEscape c @ quoteBody cs
      else if isLeadSurrogate c then
        (case cs of
           d # ds \<Rightarrow> if isTrailSurrogate d then c # d # quoteBody ds
                     else unicodeEscape c @ quoteBody cs
         | [] \<Rightarrow> unicodeEscape c)
      else if isTrailSurrogate c then unicodeEscape c @ quoteBody cs
      else c # quoteBody cs)"

definition quoteJSONString :: "jsstring \<Rightarrow> jsstring" where
  "quoteJSONString s = 0x22 # quoteBody s @ [0x22]"

definition stringify :: "jsobject \<Rightarrow> jsstring" where
  "stringify obj =
     str ''{'' @ join (str '','') (map (\<lambda>(k, v). quoteJSONString k @ str '':'' @ quoteJSONString v) obj)
     @ str ''}''"

text \<open>
  \<open>canonicalizeEntry\<close>. The fields are sorted by \<open>localeCompare\<close> on their canonical
  names; the names are those of \<open>FIELD_CONFIG\<close>, which differ in their first letter, so
  the collation order is the order of the code units. \<open>Array.prototype.sort\<close> is stable.
\<close>

fun canonicalLoop :: "env \<Rightarrow> entry \<Rightarrow> active_field list \<Rightarrow> jsobject \<Rightarrow> error + jsobject" where
  "canonicalLoop e entry [] canonicalObject = Inr canonicalObject"
| "canonicalLoop e entry (field # rest) canonicalObject =
     (if headerName field = None \<or> headerName field = Some [] then
        canonicalLoop e entry rest canonicalObject
      else
        (case normalizeValue e (canonical field) (entryGet entry (headerName field)) of
           Inl err \<Rightarrow> Inl err
         | Inr v \<Rightarrow> canonicalLoop e entry rest (objectSet canonicalObject (canonical field) v)))"

definition canonicalizeEntry :: "env \<Rightarrow> entry \<Rightarrow> active_field list \<Rightarrow> error + jsstring" where
  "canonicalizeEntry e entry selectedFields =
     (let sortedFields = sort_key canonical selectedFields
      in case canonicalLoop e entry sortedFields [] of
           Inl err \<Rightarrow> Inl err
         | Inr canonicalObject \<Rightarrow> Inr (stringify canonicalObject))"

text \<open>\<open>buildActiveFields\<close> binds each configured field to the first header that matches.\<close>

definition toCanonical :: "env \<Rightarrow> jsstring \<Rightarrow> jsstring" where
  "toCanonical e value = toLowerCase e (trim value)"

definition buildActiveFields :: "env \<Rightarrow> jsstring list \<Rightarrow> active_field list" where
  "buildActiveFields e headers =
     map (\<lambda>field. \<lparr>label = label field, canonical = canonical field,
                    headerName = find (\<lambda>header. toCanonical e header = canonical field) headers\<rparr>)
         FIELD_CONFIG"

section \<open>Merkle tree builder\<close>

text \<open>
  The objects of the pipeline: \<open>{merkleHash, canonicalHash, title}\<close> for a hashed row,
  \<open>{hash, title}\<close> for a leaf, \<open>{hash, title, isDuplicate}\<close> for a tree node. A title is
  a string, or \<open>null\<close> (\<open>None\<close>) on a parent node.
\<close>

record titled =
  title :: "jsstring option"

record hash_entry = titled +
  merkleHash :: jsstring
  canonicalHash :: jsstring

record leaf = titled +
  hash :: jsstring

record node = leaf +
  isDuplicate :: bool

record merkle_data =
  levels :: "node list list"
  root :: jsstring

text \<open>
  The inner \<open>for\<close> loop of \<open>buildMerkleTree\<close>. On a level of odd length
  \<open>workingLevel[i + 1]\<close> is \<open>undefined\<close> at the last step and reading its
  \<open>hash\<close> throws a \<open>TypeError\<close>.
\<close>

fun nextLevel :: "env \<Rightarrow> node list \<Rightarrow> error + node list" where
  "nextLevel e [] = Inr []"
| "nextLevel e [left] = Inl TypeError"
| "nextLevel e (left # right # rest) =
     (case nextLevel e rest of
        Inl err \<Rightarrow> Inl err
      | Inr parents \<Rightarrow>
          Inr (\<lparr>title = None, hash = doubleSha256Hex e (hash left) (hash right),
                isDuplicate = False\<rparr> # parents))"

definition padLevel :: "node list \<Rightarrow> node list" where
  "padLevel currentLevel =
     (if length currentLevel > 1 \<and> length currentLevel mod 2 = 1 then
        currentLevel @ [\<lparr>title = title (last currentLevel), hash = hash (last currentLevel),
                          isDuplicate = True\<rparr>]
      else currentLevel)"

text \<open>The \<open>while (true)\<close> loop; \<open>None\<close> is a loop that never returns.\<close>

partial_function (option) buildLoop ::
  "env \<Rightarrow> node list \<Rightarrow> node list list \<Rightarrow> (error + merkle_data) option"
where
  "buildLoop e currentLevel levelsAcc =
     (let workingLevel = padLevel currentLevel;
          levelsAcc' = levelsAcc @ [workingLevel]
      in if length workingLevel = 1 then
           Some (Inr \<lparr>levels = levelsAcc', root = hash (workingLevel ! 0)\<rparr>)
         else (case nextLevel e workingLevel of
                 Inl err \<Rightarrow> Some (Inl err)
               | Inr parents \<Rightarrow> buildLoop e parents levelsAcc'))"

declare buildLoop.simps [code]

definition buildMerkleTree :: "env \<Rightarrow> leaf list \<Rightarrow> (error + merkle_data option) option" where
  "buildMerkleTree e leaves =
     (if leaves = [] then Some (Inr None)
      else (case buildLoop e (map (\<lambda>leaf. \<lparr>title = title leaf, hash = hash leaf,
                                              isDuplicate = False\<rparr>) leaves) [] of
              None \<Rightarrow> None
            | Some (Inl err) \<Rightarrow> Some (Inl err)
            | Some (Inr tree) \<Rightarrow> Some (Inr (Some tree))))"

section \<open>The pipeline of a panel\<close>

text \<open>
  \<open>getSelectedFields\<close>: the fields bound to a header whose checkbox is checked. The
  checkboxes are the function \<open>checked\<close> on canonical names.
\<close>

definition hasHeader :: "active_field \<Rightarrow> bool" where
  "hasHeader field \<longleftrightarrow> headerName field \<noteq> None \<and> headerName field \<noteq> Some []"

definition getSelectedFields :: "active_field list \<Rightarrow> (jsstring \<Rightarrow> bool) \<Rightarrow> active_field list" where
  "getSelectedFields activeFields checked =
     filter (\<lambda>field. hasHeader field \<and> checked (canonical field)) activeFields"

definition findTitleField :: "active_field list \<Rightarrow> active_field option" where
  "findTitleField activeFields =
     find (\<lambda>field. canonical field = str ''title'' \<and> hasHeader field) activeFields"

text \<open>The body of the loop over the entries, without its suspensions.\<close>

definition hashEntry ::
  "env \<Rightarrow> active_field list \<Rightarrow> jsstring list \<Rightarrow> active_field option \<Rightarrow> entry \<Rightarrow> error + hash_entry"
where
  "hashEntry e selectedFields selectedCanonical titleField entry =
     (case normalizeEntry e entry selectedFields of
        Inl err \<Rightarrow> Inl err
      | Inr normalized \<Rightarrow>
          (let hashInput = buildHashInput normalized selectedCanonical;
               merkleHash = sha256Hex e hashInput
           in case canonicalizeEntry e entry selectedFields of
                Inl err \<Rightarrow> Inl err
              | Inr canonicalJson \<Rightarrow>
                  (let canonicalHash = sha256Hex e canonicalJson;
                       titleValue = (case titleField of
                                       Some tf \<Rightarrow> normalizeText e (entryGet entry (headerName tf))
                                     | None \<Rightarrow> [])
                   in Inr \<lparr>title = Some titleValue, merkleHash = merkleHash,
                           canonicalHash = canonicalHash\<rparr>)))"

fun hashAll ::
  "env \<Rightarrow> active_field list \<Rightarrow> jsstring list \<Rightarrow> active_field option \<Rightarrow> entry list
   \<Rightarrow> hash_entry list \<Rightarrow> error + hash_entry list"
where
  "hashAll e selectedFields selectedCanonical titleField [] hashes = Inr hashes"
| "hashAll e selectedFields selectedCanonical titleField (entry # rest) hashes =
     (case hashEntry e selectedFields selectedCanonical titleField entry of
        Inl err \<Rightarrow> Inl err
      | Inr h \<Rightarrow> hashAll e selectedFields selectedCanonical titleField rest (hashes @ [h]))"

text \<open>
  \<open>hashes.sort((a, b) => a.canonicalHash.localeCompare(b.canonicalHash))\<close> and the
  projection to leaves. The sort is stable; the keys are lower-case hexadecimal strings,
  on which the collation order is the lexicographic order of the code units.
\<close>

definition sortedLeafNodes :: "hash_entry list \<Rightarrow> leaf list" where
  "sortedLeafNodes hashes =
     map (\<lambda>h. \<lparr>title = title h, hash = merkleHash h\<rparr>) (sort_key canonicalHash hashes)"

text \<open>
  \<open>updateResults\<close> run from start to end with no other event in between: the leaves
  and the tree it publishes. \<open>None\<close> is a run that never returns.
\<close>

definition computeTree ::
  "env \<Rightarrow> active_field list \<Rightarrow> (jsstring \<Rightarrow> bool) \<Rightarrow> entry list
   \<Rightarrow> (error + leaf list \<times> merkle_data option) option"
where
  "computeTree e activeFields checked parsedEntries =
     (if parsedEntries = [] then Some (Inr ([], None))
      else
        (let selectedFields = getSelectedFields activeFields checked;
             selectedCanonical = map canonical selectedFields
         in if selectedFields = [] then Some (Inr ([], None))
            else
              (case hashAll e selectedFields selectedCanonical (findTitleField activeFields)
                      parsedEntries [] of
                 Inl err \<Rightarrow> Some (Inl err)
               | Inr hashes \<Rightarrow>
                   (let leafNodes = sortedLeafNodes hashes
                    in case buildMerkleTree e leafNodes of
                         None \<Rightarrow> None
                       | Some (Inl err) \<Rightarrow> Some (Inl err)
                       | Some (Inr merkleData) \<Rightarrow> Some (Inr (leafNodes, merkleData))))))"

section \<open>CSV tokenizer\<close>

text \<open>
  The variables of the scan of \<open>parseCsv\<close>. The quote is the code unit \<open>0x22\<close>, the
  comma \<open>0x2C\<close>, the line feed \<open>0x0A\<close> and the carriage return \<open>0x0D\<close>.
\<close>

record scan_state =
  rows :: "jsstring list list"
  currentRow :: "jsstring list"
  currentValue :: jsstring
  isInQuotes :: bool

definition pushValue :: "scan_state \<Rightarrow> scan_state" where
  "pushValue st = st\<lparr>currentRow := currentRow st @ [currentValue st], currentValue := []\<rparr>"

definition keepRow :: "jsstring list \<Rightarrow> bool" where
  "keepRow row \<longleftrightarrow> length row > 1 \<or> (length row = 1 \<and> row ! 0 \<noteq> [])"

definition pushRowIfNeeded :: "scan_state \<Rightarrow> scan_state" where
  "pushRowIfNeeded st =
     (let isEmptyRow = (length (currentRow st) = 1 \<and> length (currentRow st ! 0) = 0)
      in if isEmptyRow \<and> length (rows st) = 0 then st\<lparr>currentRow := []\<rparr>
         else if keepRow (currentRow st) then
           st\<lparr>rows := rows st @ [currentRow st], currentRow := []\<rparr>
         else st\<lparr>currentRow := []\<rparr>)"

text \<open>
  One turn of the \<open>for\<close> loop on \<open>char = source[i]\<close> and \<open>nextChar = source[i + 1]\<close>
  (\<open>None\<close> past the end): the new state, and whether the turn also consumed
  \<open>nextChar\<close> (\<open>i += 1\<close>).
\<close>

definition scanChar :: "jschar \<Rightarrow> jschar option \<Rightarrow> scan_state \<Rightarrow> scan_state \<times> bool" where
  "scanChar char nextChar st =
     (if char = 0x22 \<and> nextChar = Some 0x22 then
        (st\<lparr>currentValue := currentValue st @ [0x22]\<rparr>, True)
      else if char = 0x22 then (st\<lparr>isInQuotes := \<not> isInQuotes st\<rparr>, False)
      else if char = 0x2C \<and> \<not> isInQuotes st then (pushValue st, False)
      else if (char = 0x0A \<or> char = 0x0D) \<and> \<not> isInQuotes st then
        (pushRowIfNeeded (pushValue st), char = 0x0D \<and> nextChar = Some 0x0A)
      else (st\<lparr>currentValue := currentValue st @ [char]\<rparr>, False))"

function scan :: "jsstring \<Rightarrow> scan_state \<Rightarrow> scan_state" where
  "scan [] st = st"
| "scan (char # rest) st =
     (let (st', skip) = scanChar char (case rest of [] \<Rightarrow> None | n # _ \<Rightarrow> Some n) st
      in scan (if skip then drop 1 rest else rest) st')"
  by pat_completeness auto
termination
  by (relation "measure (\<lambda>(source, st). length source)") auto

text \<open>The rows of fields that the scan and the final \<open>pushValue\<close> leave.\<close>

definition tokenize :: "jsstring \<Rightarrow> jsstring list list" where
  "tokenize text =
     (let source = (case text of c # r \<Rightarrow> if c = 0xFEFF then r else text | [] \<Rightarrow> text);
          st = pushValue (scan source
                 \<lparr>rows = [], currentRow = [], currentValue = [], isInQuotes = False\<rparr>)
      in if currentRow st \<noteq> [] \<and> keepRow (currentRow st) then rows st @ [currentRow st]
         else rows st)"

text \<open>An entry is filled header by header, a missing cell read as the empty string.\<close>

definition rowEntry :: "jsstring list \<Rightarrow> jsstring list \<Rightarrow> entry" where
  "rowEntry headers row =
     foldl (\<lambda>entry (header, index).
              entry(header \<mapsto> (if index < length row then row ! index else [])))
       Map.empty (zip headers [0..<length headers])"

definition parseCsv :: "jsstring \<Rightarrow> jsstring list \<times> entry list" where
  "parseCsv text =
     (case tokenize text of
        [] \<Rightarrow> ([], [])
      | headers # dataRows \<Rightarrow> (headers, map (rowEntry headers) dataRows))"

section \<open>Diff engine\<close>

text \<open>
  \<open>handleComparison\<close> with both panels present: the set it hands to
  \<open>rightController.setDifferences\<close>, from the leaves the two panels have published.
\<close>

definition handleComparison :: "bool \<Rightarrow> leaf list \<Rightarrow> leaf list \<Rightarrow> jsstring set" where
  "handleComparison isDual leftLatest rightLatest =
     (if \<not> isDual then {}
      else
        (let leftHashes = set (filter (\<lambda>h. h \<noteq> []) (map hash leftLatest));
             rightHashes = rightLatest
         in if leftHashes = {} \<or> rightHashes = [] then {}
            else set (filter (\<lambda>h. h \<noteq> [] \<and> h \<notin> leftHashes) (map hash rightHashes))))"

section \<open>Runs and the generation counter\<close>

text \<open>
  The state of a panel that \<open>updateResults\<close> reads and writes. \<open>notifications\<close> counts
  the calls of \<open>notifyChange\<close>, the one effect of a run outside the panel.
\<close>

record panel =
  parsedEntries :: "entry list"
  activeFields :: "active_field list"
  checkboxes :: "jsstring \<Rightarrow> bool"
  computationVersion :: nat
  currentRootPrefix :: jsstring
  currentRootHash :: jsstring
  latestHashes :: "leaf list"
  lastMerkleData :: "merkle_data option"
  highlightedHashes :: "jsstring set"
  notifications :: nat

definition renderMerkleTree :: "merkle_data option \<Rightarrow> panel \<Rightarrow> panel" where
  "renderMerkleTree treeData p =
     (case treeData of
        None \<Rightarrow> p\<lparr>lastMerkleData := None, currentRootPrefix := [], currentRootHash := [],
                   highlightedHashes := {}\<rparr>
      | Some tree \<Rightarrow> p\<lparr>lastMerkleData := Some tree, currentRootPrefix := take 7 (root tree),
                       currentRootHash := root tree\<rparr>)"

definition notifyChange :: "panel \<Rightarrow> panel" where
  "notifyChange p = p\<lparr>notifications := notifications p + 1\<rparr>"

definition publish :: "leaf list \<Rightarrow> merkle_data option \<Rightarrow> panel \<Rightarrow> panel" where
  "publish leafNodes merkleData p =
     notifyChange (renderMerkleTree merkleData (p\<lparr>latestHashes := leafNodes\<rparr>))"

text \<open>
  The local variables of a call of \<open>updateResults\<close>, and the three places where it is
  suspended: at the two \<open>await sha256Hex\<close> of the loop body, with the entry in hand and
  the entries still to come, and at \<open>await buildMerkleTree\<close>.
\<close>

record locals =
  runId :: nat
  selectedFields :: "active_field list"
  selectedCanonical :: "jsstring list"
  titleField :: "active_field option"
  hashes :: "hash_entry list"

datatype run =
    AwaitMerkleHash locals entry "entry list" jsstring
  | AwaitCanonicalHash locals entry "entry list" jsstring jsstring
  | AwaitTree locals "leaf list"

fun runLocals :: "run \<Rightarrow> locals" where
  "runLocals (AwaitMerkleHash l entry rest hashInput) = l"
| "runLocals (AwaitCanonicalHash l entry rest mh canonicalJson) = l"
| "runLocals (AwaitTree l leafNodes) = l"

text \<open>
  The head of the \<open>for\<close> loop and the code after it, up to the next suspension. A step
  gives the panel after it and the run if it is suspended again; \<open>None\<close> is a run that
  has returned or thrown.
\<close>

fun loopTop :: "env \<Rightarrow> panel \<Rightarrow> locals \<Rightarrow> entry list \<Rightarrow> panel \<times> run option" where
  "loopTop e p l [] =
     (if runId l \<noteq> computationVersion p then (p, None)
      else (p, Some (AwaitTree l (sortedLeafNodes (hashes l)))))"
| "loopTop e p l (entry # rest) =
     (if runId l \<noteq> computationVersion p then (p, None)
      else (case normalizeEntry e entry (selectedFields l) of
              Inl err \<Rightarrow> (p, None)
            | Inr normalized \<Rightarrow>
                (p, Some (AwaitMerkleHash l entry rest
                            (buildHashInput normalized (selectedCanonical l))))))"

text \<open>The synchronous start of \<open>updateResults\<close>.\<close>

definition start :: "env \<Rightarrow> panel \<Rightarrow> panel \<times> run option" where
  "start e p =
     (if parsedEntries p = [] then (publish [] None p, None)
      else
        (let selected = getSelectedFields (activeFields p) (checkboxes p);
             p1 = p\<lparr>computationVersion := computationVersion p + 1\<rparr>
         in if selected = [] then (publish [] None p1, None)
            else loopTop e p1
                   \<lparr>runId = computationVersion p1, selectedFields = selected,
                      selectedCanonical = map canonical selected,
                      titleField = findTitleField (activeFields p), hashes = []\<rparr>
                   (parsedEntries p)))"

text \<open>
  A suspended run resumes in the panel state of that moment; the awaited value is the
  hash of the text it was suspended with, or the tree of its leaves.
\<close>

fun resume :: "env \<Rightarrow> panel \<Rightarrow> run \<Rightarrow> panel \<times> run option" where
  "resume e p (AwaitMerkleHash l entry rest hashInput) =
     (let merkleHash = sha256Hex e hashInput
      in if runId l \<noteq> computationVersion p then (p, None)
         else (case canonicalizeEntry e entry (selectedFields l) of
                 Inl err \<Rightarrow> (p, None)
               | Inr canonicalJson \<Rightarrow>
                   (p, Some (AwaitCanonicalHash l entry rest merkleHash canonicalJson))))"
| "resume e p (AwaitCanonicalHash l entry rest mHash canonicalJson) =
     (let merkleHash = mHash;
          canonicalHash = sha256Hex e canonicalJson
      in if runId l \<noteq> computationVersion p then (p, None)
         else
           (let titleValue = (case titleField l of
                                Some tf \<Rightarrow> normalizeText e (entryGet entry (headerName tf))
                              | None \<Rightarrow> [])
            in loopTop e p
                 (l\<lparr>hashes := hashes l @ [\<lparr>title = Some titleValue, merkleHash = merkleHash,
                                           canonicalHash = canonicalHash\<rparr>]\<rparr>)
                 rest))"
| "resume e p (AwaitTree l leafNodes) =
     (case buildMerkleTree e leafNodes of
        None \<Rightarrow> (p, Some (AwaitTree l leafNodes))
      | Some (Inl err) \<Rightarrow> (p, None)
      | Some (Inr merkleData) \<Rightarrow>
          (if runId l \<noteq> computationVersion p then (p, None)
           else (publish leafNodes merkleData p, None)))"

text \<open>\<open>resetData\<close>, the other writer of the counter.\<close>

definition resetData :: "panel \<Rightarrow> panel" where
  "resetData p =
     notifyChange
       ((renderMerkleTree None
          (p\<lparr>computationVersion := computationVersion p + 1, parsedEntries := [],
             activeFields := []\<rparr>))\<lparr>latestHashes := []\<rparr>)"

section \<open>A runtime for the examples\<close>

text \<open>
  An environment on which the model can be evaluated. Its digest is a two-byte
  stand-in for SHA-256 (the length and the sum of the input), its Unicode functions are
  right on ASCII text, and its date functions answer as a browser does on the inputs of
  the examples: \<open>new Date("2024-01-02T03:04:05.123Z").getTime()\<close> is
  \<open>1704164645123\<close>, and \<open>Date.parse\<close> of text that is no date is \<open>NaN\<close>.
\<close>

definition sampleEnv :: env where
  "sampleEnv =
     \<lparr>digest = (\<lambda>bytes. [of_nat (length bytes), sum_list bytes]),
      nfc = (\<lambda>s. s),
      toLowerCase = map (\<lambda>c. if 0x41 \<le> c \<and> c \<le> 0x5A then c + 0x20 else c),
      newDateIso = (\<lambda>s. if s = str ''2024-01-02T03:04:05.123Z'' then Date 1704164645123
                          else InvalidDate),
      newDateLocal = (\<lambda>y mo d h mi s ms. InvalidDate),
      dateParse = (\<lambda>s. None)\<rparr>"

text \<open>
  A panel with one entry and the title column bound and checked, and the run of
  \<open>updateResults\<close> on it, suspended at its first hash with \<open>runId\<close> \<open>k\<close>.
\<close>

definition sampleField :: active_field where
  "sampleField = \<lparr>label = str ''Title'', canonical = str ''title'', headerName = Some (str ''Title'')\<rparr>"

definition samplePanel :: panel where
  "samplePanel =
     \<lparr>parsedEntries = [[str ''Title'' \<mapsto> str ''t'']],
      activeFields = [sampleField],
      checkboxes = (\<lambda>c. True),
      computationVersion = 0,
      currentRootPrefix = [],
      currentRootHash = [],
      latestHashes = [],
      lastMerkleData = None,
      highlightedHashes = {},
      notifications = 0\<rparr>"

definition sampleRun :: "nat \<Rightarrow> run" where
  "sampleRun k =
     AwaitMerkleHash
       \<lparr>runId = k, selectedFields = [sampleField], selectedCanonical = [str ''title''],
          titleField = Some sampleField, hashes = []\<rparr>
       [str ''Title'' \<mapsto> str ''t''] [] (str ''t'')"

section \<open>Predicates of the proofs\<close>


text \<open>
  The inverse of \<open>quoteBody\<close>: it reads a quoted string up to its closing quote and
  gives the string and the rest of the input.
\<close>

definition unescape :: "jschar \<Rightarrow> jschar" where
  "unescape x =
     (if x = 0x62 then 0x08 else if x = 0x74 then 0x09 else if x = 0x6E then 0x0A
      else if x = 0x66 then 0x0C else if x = 0x72 then 0x0D else x)"

definition unhex4 :: "jschar \<Rightarrow> jschar \<Rightarrow> jschar \<Rightarrow> jschar \<Rightarrow> jschar" where
  "unhex4 a b c d =
     of_int ((((case hexValue a of Some v \<Rightarrow> v | None \<Rightarrow> 0) * 16
              + (case hexValue b of Some v \<Rightarrow> v | None \<Rightarrow> 0)) * 16
              + (case hexValue c of Some v \<Rightarrow> v | None \<Rightarrow> 0)) * 16
              + (case hexValue d of Some v \<Rightarrow> v | None \<Rightarrow> 0))"

function unquoteBody :: "jsstring \<Rightarrow> jsstring \<times> jsstring" where
  "unquoteBody [] = ([], [])"
| "unquoteBody (c # cs) =
     (if c = 0x22 then ([], cs)
      else if c = 0x5C then
        (case cs of
           [] \<Rightarrow> ([], [])
         | x # xs \<Rightarrow>
             if x = 0x75 then
               (let (s, r) = unquoteBody (drop 4 xs)
                in (unhex4 (xs ! 0) (xs ! 1) (xs ! 2) (xs ! 3) # s, r))
             else (let (s, r) = unquoteBody xs in (unescape x # s, r)))
      else (let (s, r) = unquoteBody cs in (c # s, r)))"
  by pat_completeness auto
termination
  by (relation "measure length") auto

text \<open>One member of a stringified object, and the normalized value of a field.\<close>

definition member :: "jsstring \<times> jsstring \<Rightarrow> jsstring" where
  "member kv = quoteJSONString (fst kv) @ str '':'' @ quoteJSONString (snd kv)"

definition nv :: "env \<Rightarrow> entry \<Rightarrow> active_field \<Rightarrow> jsstring" where
  "nv e entry f = projr (normalizeValue e (canonical f) (entryGet entry (headerName f)))"

section \<open>Order of selection\<close>

lemma HASH_FIELDS_eq:
  "HASH_FIELDS = [str ''title'', str ''username'', str ''password'', str ''last modified'']"
  by (simp add: HASH_FIELDS_def FIELD_CONFIG_def)

text \<open>
  C5. For every normalized row and every two selections that hold the same set of
  canonical names, the identity-hash input is the same, and so is the identity hash: the
  input is the selected values joined with \<open>|\<close> in the fixed order title, username,
  password, last modified, whatever the order in which the caller listed the selection.
\<close>

theorem buildHashInput_selection_order:
  assumes "set sel1 = set sel2"
  shows "buildHashInput n sel1 = buildHashInput n sel2
       \<and> sha256Hex e (buildHashInput n sel1) = sha256Hex e (buildHashInput n sel2)
       \<and> buildHashInput n sel1 =
           join (str ''|'') (map (\<lambda>field. case n field of Some v \<Rightarrow> v | None \<Rightarrow> [])
             (filter (\<lambda>field. field \<in> set sel1)
                [str ''title'', str ''username'', str ''password'', str ''last modified'']))"
  using assms by (simp add: buildHashInput_def HASH_FIELDS_eq)

theorem buildHashInput_selection_order_witness:
  "set [str ''password'', str ''title''] = set [str ''title'', str ''password'']
   \<and> buildHashInput [str ''title'' \<mapsto> str ''t'', str ''password'' \<mapsto> str ''p'']
        [str ''password'', str ''title''] = str ''t|p''
   \<and> buildHashInput [str ''title'' \<mapsto> str ''t'', str ''password'' \<mapsto> str ''p'']
        [str ''title'', str ''password''] = str ''t|p''"
proof -
  have h: "set [str ''password'', str ''title''] = set [str ''title'', str ''password'']"
    by auto
  have v: "buildHashInput [str ''title'' \<mapsto> str ''t'', str ''password'' \<mapsto> str ''p'']
             [str ''title'', str ''password''] = str ''t|p''"
    by (simp add: buildHashInput_def HASH_FIELDS_eq str_def)
  from buildHashInput_selection_order
         [OF h, of "[str ''title'' \<mapsto> str ''t'', str ''password'' \<mapsto> str ''p'']"] h v
  show ?thesis by simp
qed

text \<open>
  C10. The identity-hash input is not injective on normalized rows. With title and
  username selected, the row with title \<open>a|b\<close> and username \<open>c\<close> and the row with
  title \<open>a\<close> and username \<open>b|c\<close> are different rows, both are encoded as \<open>a|b|c\<close>,
  and so they receive the same identity hash: the values are joined without escaping
  the separator.
\<close>

theorem buildHashInput_not_injective:
  "[str ''title'' \<mapsto> str ''a|b'', str ''username'' \<mapsto> str ''c'']
     \<noteq> [str ''title'' \<mapsto> str ''a'', str ''username'' \<mapsto> str ''b|c'']
   \<and> buildHashInput [str ''title'' \<mapsto> str ''a|b'', str ''username'' \<mapsto> str ''c'']
        [str ''title'', str ''username''] = str ''a|b|c''
   \<and> buildHashInput [str ''title'' \<mapsto> str ''a'', str ''username'' \<mapsto> str ''b|c'']
        [str ''title'', str ''username''] = str ''a|b|c''
   \<and> sha256Hex e (buildHashInput [str ''title'' \<mapsto> str ''a|b'', str ''username'' \<mapsto> str ''c'']
        [str ''title'', str ''username''])
     = sha256Hex e (buildHashInput [str ''title'' \<mapsto> str ''a'', str ''username'' \<mapsto> str ''b|c'']
        [str ''title'', str ''username''])"
proof -
  have ne: "[str ''title'' \<mapsto> str ''a|b'', str ''username'' \<mapsto> str ''c'']
     \<noteq> [str ''title'' \<mapsto> str ''a'', str ''username'' \<mapsto> str ''b|c'']"
  proof
    assume "[str ''title'' \<mapsto> str ''a|b'', str ''username'' \<mapsto> str ''c'']
     = [str ''title'' \<mapsto> str ''a'', str ''username'' \<mapsto> str ''b|c'']"
    then have "[str ''title'' \<mapsto> str ''a|b'', str ''username'' \<mapsto> str ''c''] (str ''username'')
     = [str ''title'' \<mapsto> str ''a'', str ''username'' \<mapsto> str ''b|c''] (str ''username'')"
      by simp
    then show False by (simp add: str_def)
  qed
  have a: "buildHashInput [str ''title'' \<mapsto> str ''a|b'', str ''username'' \<mapsto> str ''c'']
        [str ''title'', str ''username''] = str ''a|b|c''"
    by (simp add: buildHashInput_def HASH_FIELDS_eq str_def)
  have b: "buildHashInput [str ''title'' \<mapsto> str ''a'', str ''username'' \<mapsto> str ''b|c'']
        [str ''title'', str ''username''] = str ''a|b|c''"
    by (simp add: buildHashInput_def HASH_FIELDS_eq str_def)
  show ?thesis using ne a b by simp
qed

section \<open>Diff\<close>

text \<open>
  C7. In dual mode, for leaves whose hashes are not the empty string (an identity hash
  is the hexadecimal text of a digest), the diff is the set of the candidate hashes that
  are not among the reference hashes, and it is the empty set when the reference or the
  candidate is empty. It is asymmetric: the witness evaluates it on reference \<open>{a, b}\<close>
  and candidate \<open>[a, c]\<close>, and with the sides swapped.
\<close>

theorem handleComparison_diff:
  assumes "\<forall>x \<in> set left \<union> set right. hash x \<noteq> []"
  shows "handleComparison True left right =
           (if left = [] \<or> right = [] then {} else hash ` set right - hash ` set left)"
  using assms by (auto simp: handleComparison_def Let_def filter_empty_conv)

theorem handleComparison_diff_witness:
  "handleComparison True
     [\<lparr>title = None, hash = str ''a''\<rparr>, \<lparr>title = None, hash = str ''b''\<rparr>]
     [\<lparr>title = None, hash = str ''a''\<rparr>, \<lparr>title = None, hash = str ''c''\<rparr>] = {str ''c''}
   \<and> handleComparison True
     [\<lparr>title = None, hash = str ''a''\<rparr>, \<lparr>title = None, hash = str ''c''\<rparr>]
     [\<lparr>title = None, hash = str ''a''\<rparr>, \<lparr>title = None, hash = str ''b''\<rparr>] = {str ''b''}
   \<and> handleComparison True [] [\<lparr>title = None, hash = str ''a''\<rparr>] = {}
   \<and> handleComparison True [\<lparr>title = None, hash = str ''a''\<rparr>] [] = {}"
proof -
  have 1: "handleComparison True
     [\<lparr>title = None, hash = str ''a''\<rparr>, \<lparr>title = None, hash = str ''b''\<rparr>]
     [\<lparr>title = None, hash = str ''a''\<rparr>, \<lparr>title = None, hash = str ''c''\<rparr>] = {str ''c''}"
    by (subst handleComparison_diff) (auto simp: str_def)
  have 2: "handleComparison True
     [\<lparr>title = None, hash = str ''a''\<rparr>, \<lparr>title = None, hash = str ''c''\<rparr>]
     [\<lparr>title = None, hash = str ''a''\<rparr>, \<lparr>title = None, hash = str ''b''\<rparr>] = {str ''b''}"
    by (subst handleComparison_diff) (auto simp: str_def)
  have 3: "handleComparison True [] [\<lparr>title = None, hash = str ''a''\<rparr>] = {}"
    by (subst handleComparison_diff) (auto simp: str_def)
  have 4: "handleComparison True [\<lparr>title = None, hash = str ''a''\<rparr>] [] = {}"
    by (subst handleComparison_diff) (auto simp: str_def)
  show ?thesis using 1 2 3 4 by simp
qed

section \<open>The tree builder\<close>


lemma nextLevel_even:
  "even (length ns) \<Longrightarrow>
     \<exists>ps. nextLevel e ns = Inr ps \<and> length ps = length ns div 2
        \<and> (\<forall>n \<in> set ps. \<not> isDuplicate n \<and> title n = None)"
  by (induction e ns rule: nextLevel.induct) auto

lemma length_padLevel:
  "length (padLevel ns) = (if length ns > 1 \<and> odd (length ns) then Suc (length ns) else length ns)"
  by (auto simp: padLevel_def odd_iff_mod_2_eq_one)

lemma padLevel_one: "length (padLevel ns) = Suc 0 \<longleftrightarrow> length ns = Suc 0"
  by (auto simp: length_padLevel)

lemma padLevel_even: "length ns \<noteq> 1 \<Longrightarrow> even (length (padLevel ns))"
proof -
  assume "length ns \<noteq> 1"
  then have "length ns = 0 \<or> length ns > 1" by arith
  then show ?thesis by (auto simp: length_padLevel)
qed

lemma half_padded_less:
  "1 < (n::nat) \<Longrightarrow> (if odd n then Suc n else n) div 2 < n \<and> 0 < (if odd n then Suc n else n) div 2"
  by presburger

lemma buildLoop_returns:
  "currentLevel \<noteq> [] \<Longrightarrow> \<exists>tree. buildLoop e currentLevel acc = Some (Inr tree)"
proof (induction "length currentLevel" arbitrary: currentLevel acc rule: less_induct)
  case less
  show ?case
  proof (cases "length currentLevel = 1")
    case True
    then show ?thesis
      by (subst buildLoop.simps) (simp add: padLevel_one Let_def)
  next
    case False
    then have ev: "even (length (padLevel currentLevel))" by (rule padLevel_even)
    from nextLevel_even [OF ev, of e] obtain ps where
      ps: "nextLevel e (padLevel currentLevel) = Inr ps"
      and len: "length ps = length (padLevel currentLevel) div 2" by blast
    from less.prems False have big: "length currentLevel > 1"
      by (cases currentLevel) auto
    then have "length ps < length currentLevel" "ps \<noteq> []"
      using len half_padded_less [of "length currentLevel"]
      by (auto simp: length_padLevel split: if_splits)
    from less.hyps [OF this, of "acc @ [padLevel currentLevel]"]
    obtain tree where "buildLoop e ps (acc @ [padLevel currentLevel]) = Some (Inr tree)" by blast
    then show ?thesis using False ps
      by (subst buildLoop.simps) (simp add: padLevel_one Let_def)
  qed
qed


lemma buildLoop_single:
  "buildLoop e [n] acc = Some (Inr \<lparr>levels = acc @ [[n]], root = hash n\<rparr>)"
  by (subst buildLoop.simps) (simp add: padLevel_def)

lemma buildLoop_pair:
  "buildLoop e [l, r] acc =
     buildLoop e [\<lparr>title = None, hash = doubleSha256Hex e (hash l) (hash r), isDuplicate = False\<rparr>]
       (acc @ [[l, r]])"
  by (subst buildLoop.simps) (simp add: padLevel_def)

lemma buildLoop_triple:
  "buildLoop e [x, y, z] acc =
     buildLoop e
       [\<lparr>title = None, hash = doubleSha256Hex e (hash x) (hash y), isDuplicate = False\<rparr>,
        \<lparr>title = None, hash = doubleSha256Hex e (hash z) (hash z), isDuplicate = False\<rparr>]
       (acc @ [[x, y, z, \<lparr>title = title z, hash = hash z, isDuplicate = True\<rparr>]])"
  by (subst buildLoop.simps) (simp add: padLevel_def)

lemma sort_three:
  assumes "mset hs = {#a, b, c#}" "f a < f b" "f b < f c"
  shows "sort_key f hs = [a, b, (c::'a)]"
proof (rule sort_key_inj_key_eq)
  show "mset hs = mset [a, b, c]" using assms(1) by simp
  have "set hs = {a, b, c}" using assms(1) by (metis mset_eq_setD \<open>mset hs = mset [a, b, c]\<close> list.simps(15) empty_set)
  then show "inj_on f (set hs)" using assms(2,3) by (auto simp: inj_on_def)
  show "sorted (map f [a, b, c])" using assms(2,3) by auto
qed

text \<open>
  C6. Three hashed rows whose sort hashes are ordered \<open>a < b < c\<close>, given in any
  order: with \<open>h1\<close>, \<open>h2\<close>, \<open>h3\<close> their identity hashes, level 0 of the tree is
  \<open>h1\<close>, \<open>h2\<close>, \<open>h3\<close> and a duplicate of \<open>h3\<close>; level 1 has the two nodes
  SHA-256(SHA-256(bytes \<open>h1\<close> followed by bytes \<open>h2\<close>)) and the same of \<open>h3\<close> with
  itself, the bytes being those the hexadecimal texts decode to; level 2 is the root, the
  same combination of the two nodes of level 1.
\<close>

theorem three_leaves_tree:
  assumes "mset hs = {#a, b, c#}"
      and "canonicalHash a < canonicalHash b" and "canonicalHash b < canonicalHash c"
  shows "buildMerkleTree e (sortedLeafNodes hs) =
     (let h1 = merkleHash a; h2 = merkleHash b; h3 = merkleHash c;
          h12 = bytesToHex (digest e (digest e (hexToBytes h1 @ hexToBytes h2)));
          h33 = bytesToHex (digest e (digest e (hexToBytes h3 @ hexToBytes h3)));
          top = bytesToHex (digest e (digest e (hexToBytes h12 @ hexToBytes h33)))
      in Some (Inr (Some
           \<lparr>levels =
              [[\<lparr>title = title a, hash = h1, isDuplicate = False\<rparr>,
                \<lparr>title = title b, hash = h2, isDuplicate = False\<rparr>,
                \<lparr>title = title c, hash = h3, isDuplicate = False\<rparr>,
                \<lparr>title = title c, hash = h3, isDuplicate = True\<rparr>],
               [\<lparr>title = None, hash = h12, isDuplicate = False\<rparr>,
                \<lparr>title = None, hash = h33, isDuplicate = False\<rparr>],
               [\<lparr>title = None, hash = top, isDuplicate = False\<rparr>]],
            root = top\<rparr>)))"
proof -
  have "sort_key canonicalHash hs = [a, b, c]"
    using assms by (rule sort_three)
  then show ?thesis
    by (simp add: buildMerkleTree_def sortedLeafNodes_def buildLoop_triple buildLoop_pair
          buildLoop_single doubleSha256Hex_def Let_def)
qed

theorem three_leaves_tree_witness:
  "mset [\<lparr>title = Some (str ''z''), merkleHash = str ''0c'', canonicalHash = str ''03''\<rparr>,
         \<lparr>title = Some (str ''x''), merkleHash = str ''0a'', canonicalHash = str ''01''\<rparr>,
         \<lparr>title = Some (str ''y''), merkleHash = str ''0b'', canonicalHash = str ''02''\<rparr>]
     = {#\<lparr>title = Some (str ''x''), merkleHash = str ''0a'', canonicalHash = str ''01''\<rparr>,
         \<lparr>title = Some (str ''y''), merkleHash = str ''0b'', canonicalHash = str ''02''\<rparr>,
         \<lparr>title = Some (str ''z''), merkleHash = str ''0c'', canonicalHash = str ''03''\<rparr>#}
   \<and> str ''01'' < str ''02'' \<and> str ''02'' < str ''03''
   \<and> buildMerkleTree sampleEnv (sortedLeafNodes
        [\<lparr>title = Some (str ''z''), merkleHash = str ''0c'', canonicalHash = str ''03''\<rparr>,
         \<lparr>title = Some (str ''x''), merkleHash = str ''0a'', canonicalHash = str ''01''\<rparr>,
         \<lparr>title = Some (str ''y''), merkleHash = str ''0b'', canonicalHash = str ''02''\<rparr>])
     = Some (Inr (Some
         \<lparr>levels =
            [[\<lparr>title = Some (str ''x''), hash = str ''0a'', isDuplicate = False\<rparr>,
              \<lparr>title = Some (str ''y''), hash = str ''0b'', isDuplicate = False\<rparr>,
              \<lparr>title = Some (str ''z''), hash = str ''0c'', isDuplicate = False\<rparr>,
              \<lparr>title = Some (str ''z''), hash = str ''0c'', isDuplicate = True\<rparr>],
             [\<lparr>title = None, hash = str ''0217'', isDuplicate = False\<rparr>,
              \<lparr>title = None, hash = str ''021a'', isDuplicate = False\<rparr>],
             [\<lparr>title = None, hash = str ''0239'', isDuplicate = False\<rparr>]],
          root = str ''0239''\<rparr>))"
proof -
  let ?a = "\<lparr>title = Some (str ''x''), merkleHash = str ''0a'', canonicalHash = str ''01''\<rparr>"
  let ?b = "\<lparr>title = Some (str ''y''), merkleHash = str ''0b'', canonicalHash = str ''02''\<rparr>"
  let ?c = "\<lparr>title = Some (str ''z''), merkleHash = str ''0c'', canonicalHash = str ''03''\<rparr>"
  have m: "mset [?c, ?a, ?b] = {#?a, ?b, ?c#}" by simp
  have o: "str ''01'' < str ''02''" "str ''02'' < str ''03''" by (simp_all add: str_def)
  then have o': "canonicalHash ?a < canonicalHash ?b" "canonicalHash ?b < canonicalHash ?c"
    by simp_all
  have h12: "bytesToHex (digest sampleEnv (digest sampleEnv (hexToBytes (str ''0a'') @ hexToBytes (str ''0b''))))
               = str ''0217''" by code_simp
  have h33: "bytesToHex (digest sampleEnv (digest sampleEnv (hexToBytes (str ''0c'') @ hexToBytes (str ''0c''))))
               = str ''021a''" by code_simp
  have top: "bytesToHex (digest sampleEnv (digest sampleEnv (hexToBytes (str ''0217'') @ hexToBytes (str ''021a''))))
               = str ''0239''" by code_simp
  from three_leaves_tree [OF m o', of sampleEnv] m o show ?thesis
    by (simp add: Let_def h12 h33 top)
qed

lemma nextLevel_hashes:
  "map hash w1 = map hash w2 \<Longrightarrow> nextLevel e w1 = Inr p1 \<Longrightarrow> nextLevel e w2 = Inr p2
   \<Longrightarrow> map hash p1 = map hash p2"
proof (induction e w1 arbitrary: w2 p1 p2 rule: nextLevel.induct)
  case (1 e)
  then show ?case by auto
next
  case (2 e left)
  then show ?case by auto
next
  case (3 e left right rest)
  from "3.prems"(1) obtain l2 r2 rest2 where w2: "w2 = l2 # r2 # rest2"
    and h: "hash left = hash l2" "hash right = hash r2" "map hash rest = map hash rest2"
    by (auto simp: map_eq_Cons_conv)
  from "3.prems"(2) obtain q1 where q1: "nextLevel e rest = Inr q1"
    and p1: "p1 = \<lparr>title = None, hash = doubleSha256Hex e (hash left) (hash right), isDuplicate = False\<rparr> # q1"
    by (auto split: sum.splits)
  from "3.prems"(3) w2 obtain q2 where q2: "nextLevel e rest2 = Inr q2"
    and p2: "p2 = \<lparr>title = None, hash = doubleSha256Hex e (hash l2) (hash r2), isDuplicate = False\<rparr> # q2"
    by (auto split: sum.splits)
  from "3.IH" [OF h(3) q1 q2] show ?case using p1 p2 h by simp
qed

lemma padLevel_hashes:
  "map hash l1 = map hash l2 \<Longrightarrow> map hash (padLevel l1) = map hash (padLevel l2)"
proof -
  assume eq: "map hash l1 = map hash l2"
  then have len: "length l1 = length l2" by (rule map_eq_imp_length_eq)
  show ?thesis
  proof (cases "l1 = []")
    case True
    then show ?thesis using eq by (simp add: padLevel_def)
  next
    case False
    then have "l2 \<noteq> []" using len by auto
    have "hash (last l1) = hash (last l2)"
      using eq False \<open>l2 \<noteq> []\<close> by (metis last_map)
    then show ?thesis using eq len by (simp add: padLevel_def)
  qed
qed

lemma buildLoop_root_hashes:
  "l1 \<noteq> [] \<Longrightarrow> map hash l1 = map hash l2 \<Longrightarrow> buildLoop e l1 a1 = Some (Inr t1)
   \<Longrightarrow> buildLoop e l2 a2 = Some (Inr t2) \<Longrightarrow> root t1 = root t2"
proof (induction "length l1" arbitrary: l1 l2 a1 a2 rule: less_induct)
  case less
  from less.prems(2) have len: "length l1 = length l2" by (rule map_eq_imp_length_eq)
  from less.prems(2) have pad: "map hash (padLevel l1) = map hash (padLevel l2)"
    by (rule padLevel_hashes)
  show ?case
  proof (cases "length l1 = Suc 0")
    case True
    then have "length (padLevel l1) = 1" "length (padLevel l2) = 1"
      using len by (simp_all add: padLevel_one)
    moreover from this pad have "hash (padLevel l1 ! 0) = hash (padLevel l2 ! 0)"
      by (metis One_nat_def length_map nth_map zero_less_one)
    ultimately show ?thesis using less.prems(3,4)
      by (subst (asm) buildLoop.simps, subst (asm) (2) buildLoop.simps) (auto simp: Let_def)
  next
    case False
    then have n1: "length (padLevel l1) \<noteq> 1" "length (padLevel l2) \<noteq> 1"
      using len by (simp_all add: padLevel_one)
    from less.prems(3) n1 obtain p1 where p1: "nextLevel e (padLevel l1) = Inr p1"
      and b1: "buildLoop e p1 (a1 @ [padLevel l1]) = Some (Inr t1)"
      by (subst (asm) buildLoop.simps) (auto simp: Let_def split: sum.splits)
    from less.prems(4) n1 obtain p2 where p2: "nextLevel e (padLevel l2) = Inr p2"
      and b2: "buildLoop e p2 (a2 @ [padLevel l2]) = Some (Inr t2)"
      by (subst (asm) buildLoop.simps) (auto simp: Let_def split: sum.splits)
    have ph: "map hash p1 = map hash p2" using pad p1 p2 by (rule nextLevel_hashes)
    from False have ev: "even (length (padLevel l1))" by (simp add: padLevel_even)
    from nextLevel_even [OF ev, of e] p1
    have lp: "length p1 = length (padLevel l1) div 2" by auto
    from less.prems(1) False have big: "length l1 > 1" by (cases l1) auto
    then have "length p1 < length l1" "p1 \<noteq> []"
      using lp half_padded_less [of "length l1"]
      by (auto simp: length_padLevel split: if_splits)
    from less.hyps [OF this ph b1 b2] show ?thesis .
  qed
qed

section \<open>Duplicate nodes\<close>




lemma buildMerkleTree_returns:
  "leaves \<noteq> [] \<Longrightarrow> \<exists>tree. buildMerkleTree e leaves = Some (Inr (Some tree))"
proof -
  assume "leaves \<noteq> []"
  then have "map (\<lambda>leaf. \<lparr>title = title leaf, hash = hash leaf, isDuplicate = False\<rparr>) leaves \<noteq> []"
    by simp
  from buildLoop_returns [OF this, of e "[]"] \<open>leaves \<noteq> []\<close>
  show ?thesis by (auto simp: buildMerkleTree_def)
qed






section \<open>The date normalizer\<close>

lemma isDigit_digitChar: "isDigit (digitChar (n mod 10))"
proof -
  have "n mod 10 < 10" by simp
  then have "n mod 10 = 0 \<or> n mod 10 = 1 \<or> n mod 10 = 2 \<or> n mod 10 = 3 \<or> n mod 10 = 4
     \<or> n mod 10 = 5 \<or> n mod 10 = 6 \<or> n mod 10 = 7 \<or> n mod 10 = 8 \<or> n mod 10 = 9"
    by arith
  then show ?thesis by (auto simp: isDigit_def digitChar_def str_def)
qed

lemma decimal_2: "decimal 2 n = [digitChar (n div 10 mod 10), digitChar (n mod 10)]"
  by (simp add: numeral_2_eq_2)

lemma decimal_3:
  "decimal 3 n =
     [digitChar (n div 10 div 10 mod 10), digitChar (n div 10 mod 10), digitChar (n mod 10)]"
  by (simp add: numeral_3_eq_3)

lemma decimal_4:
  "decimal 4 n =
     [digitChar (n div 10 div 10 div 10 mod 10), digitChar (n div 10 div 10 mod 10),
      digitChar (n div 10 mod 10), digitChar (n mod 10)]"
proof -
  have "decimal 4 n = decimal (Suc 3) n" by simp
  also have "\<dots> = decimal 3 (n div 10) @ [digitChar (n mod 10)]" by (rule decimal.simps)
  finally show ?thesis by (simp add: decimal_3)
qed

lemma replaceMillisZ_iso:
  "replaceMillisZ (p @ str ''.'' @ decimal 3 n @ str ''Z'') = p @ str ''Z''"
  by (simp add: replaceMillisZ_def decimal_3 isDigit_digitChar str_def)

lemma formatUtcIso_Date: "formatUtcIso (Date t) = Inr (isoSeconds t @ str ''Z'')"
  by (simp add: formatUtcIso_def toISOString_def replaceMillisZ_iso)

lemma returnIfValid_valid:
  "returnIfValid x fb = Some d \<Longrightarrow> (fb = Some d \<Longrightarrow> \<exists>t. d = Date t) \<Longrightarrow> \<exists>t. d = Date t"
  by (cases x) (auto simp: returnIfValid_def)

lemma parseFlexibleDate_valid:
  assumes "parseFlexibleDate e v = Some d"
  shows "\<exists>t. d = Date t"
proof -
  define fb where "fb = (case dateParse e v of Some ts \<Rightarrow> Some (Date ts) | None \<Rightarrow> None)"
  have fbv: "fb = Some d \<Longrightarrow> \<exists>t. d = Date t"
    by (auto simp: fb_def split: option.splits)
  show ?thesis
  proof (cases "isoMatch v")
    case None
    with assms have "fb = Some d" by (simp add: parseFlexibleDate_def fb_def)
    then show ?thesis by (rule fbv)
  next
    case (Some m)
    with assms obtain x where "returnIfValid x fb = Some d"
      by (simp add: parseFlexibleDate_def fb_def Let_def split: if_splits)
    then show ?thesis using fbv by (rule returnIfValid_valid)
  qed
qed

lemma normalizeDate_Inr: "\<exists>s. normalizeDate e value = Inr s"
proof (cases "normalizeText e value = []")
  case True
  then show ?thesis by (simp add: normalizeDate_def)
next
  case False
  show ?thesis
  proof (cases "parseFlexibleDate e (normalizeText e value)")
    case None
    then show ?thesis by (simp add: normalizeDate_def Let_def)
  next
    case (Some d)
    then obtain t where "d = Date t" using parseFlexibleDate_valid by blast
    with Some False show ?thesis by (simp add: normalizeDate_def Let_def formatUtcIso_Date)
  qed
qed

lemma normalizeValue_Inr: "\<exists>s. normalizeValue e c raw = Inr s"
  using normalizeDate_Inr [of e raw] by (auto simp: normalizeValue_def)

lemma normalizeLoop_Inr: "\<exists>m. normalizeLoop e entry fs acc = Inr m"
proof (induction fs arbitrary: acc)
  case Nil
  then show ?case by simp
next
  case (Cons f fs)
  obtain s where "normalizeValue e (canonical f) (entryGet entry (headerName f)) = Inr s"
    using normalizeValue_Inr by blast
  then show ?case using Cons.IH by simp
qed

lemma canonicalLoop_Inr: "\<exists>obj. canonicalLoop e entry fs acc = Inr obj"
proof (induction fs arbitrary: acc)
  case Nil
  then show ?case by simp
next
  case (Cons f fs)
  obtain s where "normalizeValue e (canonical f) (entryGet entry (headerName f)) = Inr s"
    using normalizeValue_Inr by blast
  then show ?case using Cons.IH by simp
qed

lemma hashEntry_Inr: "\<exists>h. hashEntry e sel selCanon tf entry = Inr h"
proof -
  obtain m where m: "normalizeEntry e entry sel = Inr m"
    unfolding normalizeEntry_def using normalizeLoop_Inr by blast
  obtain obj where "canonicalLoop e entry (sort_key canonical sel) [] = Inr obj"
    using canonicalLoop_Inr by blast
  then have "canonicalizeEntry e entry sel = Inr (stringify obj)"
    by (simp add: canonicalizeEntry_def)
  with m show ?thesis by (simp add: hashEntry_def Let_def)
qed

text \<open>
  C2, as the code has it. For every raw date value that parses, the parsed date is a
  valid date, and the normalizer gives its UTC ISO-8601 text at second precision with
  the suffix \<open>Z\<close>: the millisecond component of \<open>toISOString\<close> is always removed,
  whether it is zero or not.
\<close>

theorem normalizeDate_second_precision:
  assumes "normalizeText e value \<noteq> []"
      and "parseFlexibleDate e (normalizeText e value) = Some d"
  shows "\<exists>t. d = Date t
          \<and> toISOString d = Inr (isoSeconds t @ str ''.'' @ decimal 3 (nat (t mod 1000)) @ str ''Z'')
          \<and> normalizeDate e value = Inr (isoSeconds t @ str ''Z'')"
proof -
  from assms(2) obtain t where "d = Date t" using parseFlexibleDate_valid by blast
  with assms show ?thesis
    by (simp add: normalizeDate_def Let_def formatUtcIso_Date toISOString_def)
qed

lemma sample_civil: "civilFromDays 19724 = (2024, 1, 2)"
  unfolding civilFromDays_def Let_def by simp

lemma sample_isoYear: "isoYear 2024 = str ''2024''"
  unfolding isoYear_def decimal_4 by (simp add: digitChar_def str_def)

lemma sample_isoSeconds: "isoSeconds 1704164645123 = str ''2024-01-02T03:04:05''"
proof -
  have d1: "(1704164645123::int) div 86400000 = 19724" by simp
  have d2: "nat ((1704164645123::int) mod 86400000) = 11045123" by simp
  show ?thesis
    unfolding isoSeconds_def Let_def d1 d2 sample_civil prod.case sample_isoYear decimal_2
    by (simp add: digitChar_def str_def)
qed

lemma sample_toISOString:
  "toISOString (Date 1704164645123) = Inr (str ''2024-01-02T03:04:05.123Z'')"
  by (simp add: toISOString_def sample_isoSeconds decimal_3 digitChar_def str_def nat_mod_distrib)

lemma sample_normalizeText:
  "normalizeText sampleEnv (Some (str ''2024-01-02T03:04:05.123Z''))
     = str ''2024-01-02T03:04:05.123Z''"
  by code_simp

lemma sample_isoMatch:
  "isoMatch (str ''2024-01-02T03:04:05.123Z'') = Some
     \<lparr>year = str ''2024'', month = str ''01'', day = str ''02'', hour = Some (str ''03''),
        minute = Some (str ''04''), second = Some (str ''05''),
        millisecond = Some (str ''123''), zone = Some (str ''Z'')\<rparr>"
  by code_simp

lemma sample_parseFlexibleDate:
  "parseFlexibleDate sampleEnv (str ''2024-01-02T03:04:05.123Z'') = Some (Date 1704164645123)"
  unfolding parseFlexibleDate_def sample_isoMatch Let_def
  by (simp add: captured_def groupOr_def padEnd_def padStart_def sampleEnv_def
        returnIfValid_def str_def)

theorem normalizeDate_second_precision_witness:
  "normalizeText sampleEnv (Some (str ''2024-01-02T03:04:05.123Z'')) \<noteq> []
   \<and> parseFlexibleDate sampleEnv (normalizeText sampleEnv (Some (str ''2024-01-02T03:04:05.123Z'')))
       = Some (Date 1704164645123)
   \<and> normalizeDate sampleEnv (Some (str ''2024-01-02T03:04:05.123Z''))
       = Inr (isoSeconds 1704164645123 @ str ''Z'')"
proof -
  have h1: "normalizeText sampleEnv (Some (str ''2024-01-02T03:04:05.123Z'')) \<noteq> []"
    unfolding sample_normalizeText by (simp add: str_def)
  have h2: "parseFlexibleDate sampleEnv
              (normalizeText sampleEnv (Some (str ''2024-01-02T03:04:05.123Z'')))
            = Some (Date 1704164645123)"
    by (simp add: sample_normalizeText sample_parseFlexibleDate)
  from normalizeDate_second_precision [OF h1 h2] h1 h2 show ?thesis by auto
qed

text \<open>
  The claim C2 as stated fails on \<open>2024-01-02T03:04:05.123Z\<close>: the value parses to a
  date whose ISO text carries \<open>.123\<close>, and the normalized output has no millisecond
  component.
\<close>

theorem milliseconds_dropped:
  "parseFlexibleDate sampleEnv (normalizeText sampleEnv (Some (str ''2024-01-02T03:04:05.123Z'')))
     = Some (Date 1704164645123)
   \<and> toISOString (Date 1704164645123) = Inr (str ''2024-01-02T03:04:05.123Z'')
   \<and> normalizeDate sampleEnv (Some (str ''2024-01-02T03:04:05.123Z''))
     = Inr (str ''2024-01-02T03:04:05Z'')"
proof -
  have ne: "str ''2024-01-02T03:04:05.123Z'' \<noteq> []" by (simp add: str_def)
  have "normalizeDate sampleEnv (Some (str ''2024-01-02T03:04:05.123Z''))
     = Inr (str ''2024-01-02T03:04:05Z'')"
    unfolding normalizeDate_def Let_def sample_normalizeText sample_parseFlexibleDate
    using ne by (simp add: formatUtcIso_Date sample_isoSeconds str_def)
  then show ?thesis
    by (simp add: sample_normalizeText sample_parseFlexibleDate sample_toISOString)
qed

text \<open>
  C8. The date normalizer returns a string for every raw value and never raises: the
  empty string for an absent value, for a value that is empty or only white space, and
  for a value that neither the pattern nor the fallback parser accepts. Hashing a row
  therefore never aborts, and the empty string keeps its place in the identity-hash
  input: with title and last modified selected the input is the title followed by the
  separator.
\<close>

theorem normalizeDate_total:
  "(\<exists>s. normalizeDate e value = Inr s)
   \<and> normalizeDate e None = Inr []
   \<and> (trim v = [] \<longrightarrow> normalizeDate e (Some v) = Inr [])
   \<and> (parseFlexibleDate e (normalizeText e value) = None \<longrightarrow> normalizeDate e value = Inr [])
   \<and> (\<exists>h. hashEntry e sel selCanon tf entry = Inr h)
   \<and> (n (str ''title'') = Some t \<and> n (str ''last modified'') = Some []
        \<longrightarrow> buildHashInput n [str ''title'', str ''last modified''] = t @ str ''|'')"
proof -
  have 1: "\<exists>s. normalizeDate e value = Inr s" by (rule normalizeDate_Inr)
  have 2: "normalizeDate e None = Inr []" by (simp add: normalizeDate_def normalizeText_def)
  have 3: "trim v = [] \<longrightarrow> normalizeDate e (Some v) = Inr []"
    by (simp add: normalizeDate_def normalizeText_def)
  have 4: "parseFlexibleDate e (normalizeText e value) = None \<longrightarrow> normalizeDate e value = Inr []"
    by (simp add: normalizeDate_def Let_def)
  have 5: "\<exists>h. hashEntry e sel selCanon tf entry = Inr h" by (rule hashEntry_Inr)
  have 6: "n (str ''title'') = Some t \<and> n (str ''last modified'') = Some []
        \<longrightarrow> buildHashInput n [str ''title'', str ''last modified''] = t @ str ''|''"
    by (simp add: buildHashInput_def HASH_FIELDS_eq str_def)
  from 1 2 3 4 5 6 show ?thesis by blast
qed

lemma sample_unparseable:
  "parseFlexibleDate sampleEnv (normalizeText sampleEnv (Some (str ''not a date''))) = None"
  by code_simp

lemma sample_blank: "trim (str ''   '') = []"
  by code_simp

theorem normalizeDate_total_witness:
  "normalizeDate sampleEnv (Some (str ''not a date'')) = Inr []
   \<and> normalizeDate sampleEnv (Some (str ''   '')) = Inr []
   \<and> normalizeDate sampleEnv None = Inr []
   \<and> buildHashInput [str ''title'' \<mapsto> str ''x'', str ''last modified'' \<mapsto> []]
        [str ''title'', str ''last modified''] = str ''x|''"
proof -
  let ?n = "[str ''title'' \<mapsto> str ''x'', str ''last modified'' \<mapsto> []]"
  have k: "?n (str ''title'') = Some (str ''x'') \<and> ?n (str ''last modified'') = Some []"
    by (simp add: str_def)
  from normalizeDate_total [of sampleEnv "Some (str ''not a date'')" "str ''   ''" _ _ _ _ ?n "str ''x''"]
    sample_unparseable sample_blank k
  show ?thesis by (simp add: str_def)
qed



section \<open>The tokenizer on an empty quoted field\<close>

text \<open>
  C4 at the input \<open>title,username\<close>, line feed, \<open>x,""\<close>. The two quotes of the empty
  quoted field are read as a doubled quote, because the test for a doubled quote does
  not look at the inside-quoted-field flag: the field is tokenized to one quote
  character, not to the empty string, and the entry of the row holds that quote under
  \<open>username\<close>.
\<close>

theorem empty_quoted_field_gives_quote:
  "tokenize (str ''title,username'' @ [0x0A] @ str ''x,'' @ [0x22, 0x22])
     = [[str ''title'', str ''username''], [str ''x'', [0x22]]]
   \<and> map (\<lambda>entry. entry (str ''username''))
         (snd (parseCsv (str ''title,username'' @ [0x0A] @ str ''x,'' @ [0x22, 0x22])))
     = [Some [0x22]]
   \<and> scanChar 0x22 (Some 0x22)
         \<lparr>rows = [], currentRow = [str ''x''], currentValue = [], isInQuotes = False\<rparr>
     = (\<lparr>rows = [], currentRow = [str ''x''], currentValue = [0x22], isInQuotes = False\<rparr>, True)"
  by code_simp

section \<open>Stale runs\<close>

lemma buildMerkleTree_total: "\<exists>r. buildMerkleTree e leaves = Some (Inr r)"
proof (cases "leaves = []")
  case True
  then show ?thesis by (simp add: buildMerkleTree_def)
next
  case False
  then show ?thesis using buildMerkleTree_returns [of leaves e] by blast
qed

lemma loopTop_panel: "loopTop e p l es = (p', r') \<Longrightarrow> p' = p"
  by (cases es) (auto split: if_splits sum.splits)

lemma loopTop_stale: "runId l \<noteq> computationVersion p \<Longrightarrow> loopTop e p l es = (p, None)"
  by (cases es) auto

lemma loopTop_runId: "loopTop e p l es = (p', Some r) \<Longrightarrow> runId (runLocals r) = runId l"
  by (cases es) (auto split: if_splits sum.splits)

lemma resume_stale:
  assumes "runId (runLocals r) \<noteq> computationVersion p"
  shows "resume e p r = (p, None)"
proof (cases r)
  case (AwaitMerkleHash l entry rest hashInput)
  with assms show ?thesis by (simp add: Let_def)
next
  case (AwaitCanonicalHash l entry rest mHash canonicalJson)
  with assms show ?thesis by (simp add: Let_def)
next
  case (AwaitTree l leafNodes)
  obtain md where "buildMerkleTree e leafNodes = Some (Inr md)"
    using buildMerkleTree_total by blast
  with assms AwaitTree show ?thesis by simp
qed

lemma resume_changes:
  assumes "resume e p r = (p', r')" and "p' \<noteq> p"
  shows "runId (runLocals r) = computationVersion p \<and> r' = None
       \<and> (\<exists>l leafNodes merkleData. r = AwaitTree l leafNodes
             \<and> buildMerkleTree e leafNodes = Some (Inr merkleData)
             \<and> p' = publish leafNodes merkleData p)"
proof (cases r)
  case (AwaitMerkleHash l entry rest hashInput)
  with assms show ?thesis by (auto simp: Let_def split: if_splits sum.splits)
next
  case (AwaitCanonicalHash l entry rest mHash canonicalJson)
  with assms show ?thesis by (auto simp: Let_def split: if_splits dest: loopTop_panel)
next
  case (AwaitTree l leafNodes)
  with assms show ?thesis by (auto split: option.splits sum.splits if_splits)
qed

lemma resume_runId:
  assumes "resume e p r = (p', Some r1)"
  shows "runId (runLocals r1) = runId (runLocals r) \<and> p' = p"
proof (cases r)
  case (AwaitMerkleHash l entry rest hashInput)
  with assms show ?thesis by (auto simp: Let_def split: if_splits sum.splits)
next
  case (AwaitCanonicalHash l entry rest mHash canonicalJson)
  with assms show ?thesis
    by (auto simp: Let_def split: if_splits dest: loopTop_panel loopTop_runId)
next
  case (AwaitTree l leafNodes)
  with assms show ?thesis by (auto split: option.splits sum.splits if_splits)
qed

lemma start_captures:
  assumes "start e p = (p1, Some r)"
  shows "p1 = p\<lparr>computationVersion := computationVersion p + 1\<rparr>
       \<and> runId (runLocals r) = computationVersion p + 1"
proof -
  from assms have ne: "parsedEntries p \<noteq> []"
    and sel: "getSelectedFields (activeFields p) (checkboxes p) \<noteq> []"
    by (auto simp: start_def Let_def split: if_splits)
  let ?p1 = "p\<lparr>computationVersion := computationVersion p + 1\<rparr>"
  from assms ne sel obtain l where
    lt: "loopTop e ?p1 l (parsedEntries p) = (p1, Some r)" and l: "runId l = computationVersion p + 1"
    by (auto simp: start_def Let_def)
  from loopTop_panel [OF lt] loopTop_runId [OF lt] l show ?thesis by simp
qed

text \<open>
  C9. A call of \<open>updateResults\<close> that gets to its loop increments the counter of the
  panel, changes nothing else, and holds the new value as its \<open>runId\<close>. Whenever a
  suspended run resumes:
  if the counter differs from its \<open>runId\<close> it returns at once and leaves the panel as
  it is; if it is suspended again it has not touched the panel and keeps its
  \<open>runId\<close>; and if the panel changes at all, the run's \<open>runId\<close> equals the counter, the
  run was waiting for its tree, the change is the publication of its leaves and tree, and
  the run is over.
\<close>

theorem stale_run_never_publishes:
  "(start e p0 = (p1, Some r0) \<longrightarrow>
      p1 = p0\<lparr>computationVersion := computationVersion p0 + 1\<rparr>
      \<and> runId (runLocals r0) = computationVersion p1)
   \<and> (runId (runLocals r) \<noteq> computationVersion p \<longrightarrow> resume e p r = (p, None))
   \<and> (resume e p r = (p', Some r1) \<longrightarrow> p' = p \<and> runId (runLocals r1) = runId (runLocals r))
   \<and> (resume e p r = (p', r') \<and> p' \<noteq> p \<longrightarrow>
        runId (runLocals r) = computationVersion p \<and> r' = None
        \<and> (\<exists>l leafNodes merkleData. r = AwaitTree l leafNodes
              \<and> buildMerkleTree e leafNodes = Some (Inr merkleData)
              \<and> p' = publish leafNodes merkleData p))"
proof -
  have 1: "start e p0 = (p1, Some r0) \<longrightarrow>
      p1 = p0\<lparr>computationVersion := computationVersion p0 + 1\<rparr>
      \<and> runId (runLocals r0) = computationVersion p1"
    using start_captures [of e p0 p1 r0] by auto
  have 2: "runId (runLocals r) \<noteq> computationVersion p \<longrightarrow> resume e p r = (p, None)"
    using resume_stale by blast
  have 3: "resume e p r = (p', Some r1) \<longrightarrow> p' = p \<and> runId (runLocals r1) = runId (runLocals r)"
    using resume_runId [of e p r p' r1] by blast
  have 4: "resume e p r = (p', r') \<and> p' \<noteq> p \<longrightarrow>
        runId (runLocals r) = computationVersion p \<and> r' = None
        \<and> (\<exists>l leafNodes merkleData. r = AwaitTree l leafNodes
              \<and> buildMerkleTree e leafNodes = Some (Inr merkleData)
              \<and> p' = publish leafNodes merkleData p)"
    using resume_changes [of e p r p' r'] by blast
  from 1 2 3 4 show ?thesis by blast
qed



lemma sample_title_text: "normalizeText sampleEnv (Some [116]) = [116]"
  by code_simp

lemma sample_start:
  "start sampleEnv (samplePanel\<lparr>computationVersion := k\<rparr>)
     = (samplePanel\<lparr>computationVersion := k + 1\<rparr>, Some (sampleRun (k + 1)))"
proof -
  have sel: "getSelectedFields [sampleField] (\<lambda>c. True) = [sampleField]"
    by (simp add: getSelectedFields_def hasHeader_def sampleField_def str_def)
  have tf: "findTitleField [sampleField] = Some sampleField"
    by (simp add: findTitleField_def hasHeader_def sampleField_def str_def)
  have ne: "normalizeEntry sampleEnv [str ''Title'' \<mapsto> str ''t''] [sampleField]
              = Inr [str ''title'' \<mapsto> str ''t'']"
    by (simp add: normalizeEntry_def normalizeValue_def entryGet_def sampleField_def
          sample_title_text str_def)
  have hi: "buildHashInput [str ''title'' \<mapsto> str ''t''] [str ''title''] = str ''t''"
    by (simp add: buildHashInput_def HASH_FIELDS_eq str_def)
  have c: "canonical sampleField = str ''title''" by (simp add: sampleField_def)
  show ?thesis
    unfolding start_def Let_def
    by (simp add: samplePanel_def sel tf ne hi c sampleRun_def)
qed

theorem stale_run_never_publishes_witness:
  "start sampleEnv samplePanel
     = (samplePanel\<lparr>computationVersion := 1\<rparr>, Some (sampleRun 1))
   \<and> start sampleEnv (samplePanel\<lparr>computationVersion := 1\<rparr>)
     = (samplePanel\<lparr>computationVersion := 2\<rparr>, Some (sampleRun 2))
   \<and> resume sampleEnv (samplePanel\<lparr>computationVersion := 2\<rparr>) (sampleRun 1)
     = (samplePanel\<lparr>computationVersion := 2\<rparr>, None)"
proof -
  have s0: "samplePanel\<lparr>computationVersion := 0\<rparr> = samplePanel"
    by (simp add: samplePanel_def)
  have 1: "start sampleEnv samplePanel
     = (samplePanel\<lparr>computationVersion := 1\<rparr>, Some (sampleRun 1))"
    using sample_start [of 0] by (simp add: s0)
  have 2: "start sampleEnv (samplePanel\<lparr>computationVersion := 1\<rparr>)
     = (samplePanel\<lparr>computationVersion := 2\<rparr>, Some (sampleRun 2))"
    using sample_start [of 1] by (simp add: numeral_2_eq_2)
  have stale: "runId (runLocals (sampleRun 1))
                 \<noteq> computationVersion (samplePanel\<lparr>computationVersion := 2\<rparr>)"
    by (simp add: sampleRun_def)
  from stale_run_never_publishes
         [of sampleEnv samplePanel "samplePanel\<lparr>computationVersion := 1\<rparr>" "sampleRun 1"
             "sampleRun 1" "samplePanel\<lparr>computationVersion := 2\<rparr>"] stale
  have 3: "resume sampleEnv (samplePanel\<lparr>computationVersion := 2\<rparr>) (sampleRun 1)
     = (samplePanel\<lparr>computationVersion := 2\<rparr>, None)" by blast
  from 1 2 3 show ?thesis by simp
qed

section \<open>The canonical encoding is injective\<close>



lemma hexValue_hexDigitChar: "k < 16 \<Longrightarrow> hexValue (hexDigitChar k) = Some (int k)"
proof -
  assume "k < 16"
  then have "k = 0 \<or> k = 1 \<or> k = 2 \<or> k = 3 \<or> k = 4 \<or> k = 5 \<or> k = 6 \<or> k = 7 \<or> k = 8
      \<or> k = 9 \<or> k = 10 \<or> k = 11 \<or> k = 12 \<or> k = 13 \<or> k = 14 \<or> k = 15" by arith
  then show ?thesis by (auto simp: hexValue_def hexDigitChar_def str_def)
qed

lemma hex_digits_sum:
  "((n div 4096 * 16 + n div 256 mod 16) * 16 + n div 16 mod 16) * 16 + n mod 16 = (n::nat)"
proof -
  have a: "n div 256 = n div 16 div 16" by (simp add: div_mult2_eq [symmetric])
  have b: "n div 4096 = n div 16 div 16 div 16" by (simp add: div_mult2_eq [symmetric])
  have 1: "n div 16 div 16 div 16 * 16 + n div 16 div 16 mod 16 = n div 16 div 16" by simp
  have 2: "n div 16 div 16 * 16 + n div 16 mod 16 = n div 16" by simp
  have 3: "n div 16 * 16 + n mod 16 = n" by simp
  show ?thesis unfolding a b 1 2 3 ..
qed

lemma unhex4_hex:
  "unhex4 (hexDigitChar (unat c div 4096)) (hexDigitChar (unat c div 256 mod 16))
     (hexDigitChar (unat c div 16 mod 16)) (hexDigitChar (unat c mod 16)) = (c::jschar)"
proof -
  have lt: "unat c < 65536" using unsigned_less [of c, where 'a = nat] by simp
  then have a: "unat c div 4096 < 16" by simp
  have "int (((unat c div 4096 * 16 + unat c div 256 mod 16) * 16 + unat c div 16 mod 16) * 16
          + unat c mod 16) = int (unat c)"
    by (simp only: hex_digits_sum)
  then have "((int (unat c div 4096) * 16 + int (unat c div 256 mod 16)) * 16
          + int (unat c div 16 mod 16)) * 16 + int (unat c mod 16) = int (unat c)"
    by simp
  then have "unhex4 (hexDigitChar (unat c div 4096)) (hexDigitChar (unat c div 256 mod 16))
     (hexDigitChar (unat c div 16 mod 16)) (hexDigitChar (unat c mod 16)) = of_int (int (unat c))"
    by (simp only: unhex4_def hexValue_hexDigitChar a mod_less_divisor zero_less_numeral option.case)
  then show ?thesis by simp
qed

lemma unquote_escape:
  "unquoteBody (unicodeEscape c @ rest) = (c # fst (unquoteBody rest), snd (unquoteBody rest))"
  by (simp add: unicodeEscape_def unhex4_hex split: prod.splits)


lemma unquote_plain:
  "c \<noteq> 0x22 \<Longrightarrow> c \<noteq> 0x5C \<Longrightarrow>
   unquoteBody (c # rest) = (c # fst (unquoteBody rest), snd (unquoteBody rest))"
  by (simp split: prod.splits)

lemma unquote_short:
  "x \<noteq> 0x75 \<Longrightarrow>
   unquoteBody (0x5C # x # rest) = (unescape x # fst (unquoteBody rest), snd (unquoteBody rest))"
  by (simp split: prod.splits)

lemma quoteBody_short:
  "quoteBody (0x08 # cs) = [0x5C, 0x62] @ quoteBody cs"
  "quoteBody (0x09 # cs) = [0x5C, 0x74] @ quoteBody cs"
  "quoteBody (0x0A # cs) = [0x5C, 0x6E] @ quoteBody cs"
  "quoteBody (0x0C # cs) = [0x5C, 0x66] @ quoteBody cs"
  "quoteBody (0x0D # cs) = [0x5C, 0x72] @ quoteBody cs"
  "quoteBody (0x22 # cs) = [0x5C, 0x22] @ quoteBody cs"
  "quoteBody (0x5C # cs) = [0x5C, 0x5C] @ quoteBody cs"
  by simp_all

lemma unquote_short_cases:
  assumes "unquoteBody (quoteBody cs @ 0x22 # r) = (cs, r)"
      and "c \<in> {0x08, 0x09, 0x0A, 0x0C, 0x0D, 0x22, 0x5C}"
  shows "unquoteBody (quoteBody (c # cs) @ 0x22 # r) = (c # cs, r)"
proof -
  from assms(2) consider "c = 0x08" | "c = 0x09" | "c = 0x0A" | "c = 0x0C" | "c = 0x0D"
    | "c = 0x22" | "c = 0x5C" by blast
  then show ?thesis
  proof cases
    case 1 then show ?thesis using assms(1) by (simp only: quoteBody_short append_Cons append_Nil) (simp add: unquote_short unescape_def del: unquoteBody.simps)
  next
    case 2 then show ?thesis using assms(1) by (simp only: quoteBody_short append_Cons append_Nil) (simp add: unquote_short unescape_def del: unquoteBody.simps)
  next
    case 3 then show ?thesis using assms(1) by (simp only: quoteBody_short append_Cons append_Nil) (simp add: unquote_short unescape_def del: unquoteBody.simps)
  next
    case 4 then show ?thesis using assms(1) by (simp only: quoteBody_short append_Cons append_Nil) (simp add: unquote_short unescape_def del: unquoteBody.simps)
  next
    case 5 then show ?thesis using assms(1) by (simp only: quoteBody_short append_Cons append_Nil) (simp add: unquote_short unescape_def del: unquoteBody.simps)
  next
    case 6 then show ?thesis using assms(1) by (simp only: quoteBody_short append_Cons append_Nil) (simp add: unquote_short unescape_def del: unquoteBody.simps)
  next
    case 7 then show ?thesis using assms(1) by (simp only: quoteBody_short append_Cons append_Nil) (simp add: unquote_short unescape_def del: unquoteBody.simps)
  qed
qed


lemma quoteBody_other:
  assumes "c \<notin> {0x08, 0x09, 0x0A, 0x0C, 0x0D, 0x22, 0x5C}"
  shows "quoteBody (c # cs) =
     (if c < 0x20 then unicodeEscape c @ quoteBody cs
      else if isLeadSurrogate c then
        (case cs of
           d # ds \<Rightarrow> if isTrailSurrogate d then c # d # quoteBody ds
                     else unicodeEscape c @ quoteBody cs
         | [] \<Rightarrow> unicodeEscape c)
      else if isTrailSurrogate c then unicodeEscape c @ quoteBody cs
      else c # quoteBody cs)"
proof -
  from assms have "c \<noteq> 0x08" "c \<noteq> 0x09" "c \<noteq> 0x0A" "c \<noteq> 0x0C" "c \<noteq> 0x0D" "c \<noteq> 0x22"
    "c \<noteq> 0x5C" by auto
  then show ?thesis by (simp only: quoteBody.simps if_False)
qed

lemma unquote_quote: "unquoteBody (quoteBody a @ 0x22 # r) = (a, r)"
proof (induction "length a" arbitrary: a r rule: less_induct)
  case less
  show ?case
  proof (cases a)
    case Nil
    then show ?thesis by simp
  next
    case (Cons c cs)
    have ih: "unquoteBody (quoteBody cs @ 0x22 # r) = (cs, r)"
      using less [of cs r] Cons by simp
    show ?thesis
    proof (cases "c \<in> {0x08, 0x09, 0x0A, 0x0C, 0x0D, 0x22, 0x5C}")
      case True
      with ih show ?thesis unfolding Cons by (rule unquote_short_cases)
    next
      case False
      note q = quoteBody_other [OF False]
      from False have ne: "c \<noteq> 0x22" "c \<noteq> 0x5C" by auto
      have "quoteBody (c # cs) = unicodeEscape c @ quoteBody cs
          \<or> (cs = [] \<and> quoteBody (c # cs) = unicodeEscape c)
          \<or> (\<exists>d ds. cs = d # ds \<and> isTrailSurrogate d \<and> quoteBody (c # cs) = c # d # quoteBody ds)
          \<or> quoteBody (c # cs) = c # quoteBody cs"
      proof (cases "c < 0x20")
        case True
        then have "quoteBody (c # cs) = unicodeEscape c @ quoteBody cs"
          by (simp only: q if_True)
        then show ?thesis by blast
      next
        case ctl: False
        show ?thesis
        proof (cases "isLeadSurrogate c")
          case lead: True
          show ?thesis
          proof (cases cs)
            case Nil
            then have "quoteBody (c # cs) = unicodeEscape c"
              using ctl lead by (simp only: q if_True if_False list.case)
            then show ?thesis using Nil by blast
          next
            case (Cons d ds)
            show ?thesis
            proof (cases "isTrailSurrogate d")
              case True
              then have "quoteBody (c # cs) = c # d # quoteBody ds"
                using ctl lead Cons by (simp only: q if_True if_False list.case)
              then show ?thesis using True Cons by blast
            next
              case False
              then have "quoteBody (c # cs) = unicodeEscape c @ quoteBody cs"
                using ctl lead Cons by (simp only: q if_True if_False list.case)
              then show ?thesis by blast
            qed
          qed
        next
          case nolead: False
          show ?thesis
          proof (cases "isTrailSurrogate c")
            case True
            then have "quoteBody (c # cs) = unicodeEscape c @ quoteBody cs"
              using ctl nolead by (simp only: q if_True if_False)
            then show ?thesis by blast
          next
            case False
            then have "quoteBody (c # cs) = c # quoteBody cs"
              using ctl nolead by (simp only: q if_True if_False)
            then show ?thesis by blast
          qed
        qed
      qed
      then consider (esc) "quoteBody (c # cs) = unicodeEscape c @ quoteBody cs"
        | (esc0) "cs = []" "quoteBody (c # cs) = unicodeEscape c"
        | (pair) d ds where "cs = d # ds" "isTrailSurrogate d" "quoteBody (c # cs) = c # d # quoteBody ds"
        | (plain) "quoteBody (c # cs) = c # quoteBody cs"
        by blast
      then show ?thesis
      proof cases
        case esc
        then show ?thesis unfolding Cons using ih
          by (simp add: unquote_escape del: unquoteBody.simps quoteBody.simps)
      next
        case esc0
        then show ?thesis unfolding Cons
          using unquote_escape [of c "0x22 # r"]
          by (simp del: quoteBody.simps)
      next
        case pair
        then have d: "d \<noteq> 0x22" "d \<noteq> 0x5C" by (auto simp: isTrailSurrogate_def)
        have "unquoteBody (quoteBody ds @ 0x22 # r) = (ds, r)"
          using less [of ds r] Cons pair by simp
        then show ?thesis unfolding Cons using pair ne d
          by (simp add: unquote_plain del: unquoteBody.simps quoteBody.simps)
      next
        case plain
        then show ?thesis unfolding Cons using ih ne
          by (simp add: unquote_plain del: unquoteBody.simps quoteBody.simps)
      qed
    qed
  qed
qed

lemma quoteBody_inj:
  "quoteBody a @ 0x22 # r = quoteBody b @ 0x22 # r' \<Longrightarrow> a = b \<and> r = r'"
  by (metis unquote_quote prod.inject)


lemma join_Cons: "join sep (x # xs) = x @ concat (map (\<lambda>y. sep @ y) xs)"
  by (induction xs arbitrary: x) auto

lemma member_inj:
  assumes "member (k, v) @ r = member (k, v') @ r'"
  shows "v = v' \<and> r = r'"
proof -
  from assms have "quoteBody v @ 0x22 # r = quoteBody v' @ 0x22 # r'"
    by (simp add: member_def quoteJSONString_def)
  then show ?thesis by (rule quoteBody_inj)
qed

lemma members_tail_inj:
  "concat (map (\<lambda>f. sep @ member (key f, a f)) fs) @ r
     = concat (map (\<lambda>f. sep @ member (key f, b f)) fs) @ r'
   \<Longrightarrow> (\<forall>f \<in> set fs. a f = b f) \<and> r = r'"
proof (induction fs)
  case Nil
  then show ?case by simp
next
  case (Cons f fs)
  let ?ra = "concat (map (\<lambda>f. sep @ member (key f, a f)) fs) @ r"
  let ?rb = "concat (map (\<lambda>f. sep @ member (key f, b f)) fs) @ r'"
  from Cons.prems have "member (key f, a f) @ ?ra = member (key f, b f) @ ?rb" by simp
  then have "a f = b f \<and> ?ra = ?rb" by (rule member_inj)
  with Cons.IH show ?case by simp
qed

lemma stringify_inj:
  assumes "stringify (map (\<lambda>f. (key f, a f)) fs) = stringify (map (\<lambda>f. (key f, b f)) fs)"
  shows "\<forall>f \<in> set fs. a f = b f"
proof (cases fs)
  case Nil
  then show ?thesis by simp
next
  case (Cons f fs')
  let ?ra = "concat (map (\<lambda>f. str '','' @ member (key f, a f)) fs') @ str ''}''"
  let ?rb = "concat (map (\<lambda>f. str '','' @ member (key f, b f)) fs') @ str ''}''"
  have m: "(\<lambda>(k, v). quoteJSONString k @ str '':'' @ quoteJSONString v) = member"
    by (auto simp: member_def fun_eq_iff)
  from assms have "member (key f, a f) @ ?ra = member (key f, b f) @ ?rb"
    unfolding stringify_def m Cons by (simp add: join_Cons comp_def)
  then have 1: "a f = b f \<and> ?ra = ?rb" by (rule member_inj)
  then have "(\<forall>f \<in> set fs'. a f = b f) \<and> str ''}'' = str ''}''"
    using members_tail_inj [of "str '',''" key a fs' "str ''}''" b "str ''}''"] by blast
  with 1 Cons show ?thesis by simp
qed

lemma normalizeValue_nv:
  "normalizeValue e (canonical f) (entryGet entry (headerName f)) = Inr (nv e entry f)"
  using normalizeValue_Inr [of e "canonical f" "entryGet entry (headerName f)"]
  by (auto simp: nv_def)

lemma objectSet_fresh: "k \<notin> fst ` set obj \<Longrightarrow> objectSet obj k v = obj @ [(k, v)]"
  by (induction obj) auto

lemma canonicalLoop_map:
  "\<forall>f \<in> set fs. hasHeader f \<Longrightarrow> distinct (map canonical fs)
   \<Longrightarrow> fst ` set obj \<inter> canonical ` set fs = {}
   \<Longrightarrow> canonicalLoop e entry fs obj = Inr (obj @ map (\<lambda>f. (canonical f, nv e entry f)) fs)"
proof (induction fs arbitrary: obj)
  case Nil
  then show ?case by simp
next
  case (Cons f fs)
  from Cons.prems have h: "headerName f \<noteq> None" "headerName f \<noteq> Some []"
    by (auto simp: hasHeader_def)
  from Cons.prems have fresh: "canonical f \<notin> fst ` set obj" by auto
  have "fst ` set (obj @ [(canonical f, nv e entry f)]) \<inter> canonical ` set fs = {}"
    using Cons.prems by auto
  with Cons.IH [of "obj @ [(canonical f, nv e entry f)]"] Cons.prems
  have "canonicalLoop e entry fs (obj @ [(canonical f, nv e entry f)])
          = Inr ((obj @ [(canonical f, nv e entry f)]) @ map (\<lambda>f. (canonical f, nv e entry f)) fs)"
    by simp
  then show ?case using h fresh by (auto simp: normalizeValue_nv objectSet_fresh)
qed

lemma normalizeLoop_cong:
  "\<forall>f \<in> set fs. nv e r1 f = nv e r2 f \<Longrightarrow> normalizeLoop e r1 fs acc = normalizeLoop e r2 fs acc"
  by (induction fs arbitrary: acc) (simp_all add: normalizeValue_nv)

lemma distinct_canonical_sort:
  "distinct (map canonical fs) \<Longrightarrow> distinct (map canonical (sort_key canonical fs))"
proof -
  have "mset (map canonical (sort_key canonical fs)) = mset (map canonical fs)" by simp
  then show "distinct (map canonical fs) \<Longrightarrow> distinct (map canonical (sort_key canonical fs))"
    by (metis mset_eq_imp_distinct_iff)
qed

lemma canonicalizeEntry_determines_input:
  assumes hdr: "\<forall>f \<in> set sel. hasHeader f" and dist: "distinct (map canonical sel)"
      and eq: "canonicalizeEntry e r1 sel = canonicalizeEntry e r2 sel"
  shows "normalizeEntry e r1 sel = normalizeEntry e r2 sel"
proof -
  let ?fs = "sort_key canonical sel"
  have h: "\<forall>f \<in> set ?fs. hasHeader f" using hdr by simp
  have d: "distinct (map canonical ?fs)" using dist by (rule distinct_canonical_sort)
  have c: "canonicalizeEntry e r sel = Inr (stringify (map (\<lambda>f. (canonical f, nv e r f)) ?fs))" for r
    using canonicalLoop_map [OF h d, of "[]" e r] by (simp add: canonicalizeEntry_def)
  from eq have "stringify (map (\<lambda>f. (canonical f, nv e r1 f)) ?fs)
                = stringify (map (\<lambda>f. (canonical f, nv e r2 f)) ?fs)"
    by (simp add: c)
  then have "\<forall>f \<in> set ?fs. nv e r1 f = nv e r2 f" by (rule stringify_inj)
  then have "\<forall>f \<in> set sel. nv e r1 f = nv e r2 f" by simp
  then show ?thesis unfolding normalizeEntry_def by (rule normalizeLoop_cong)
qed


section \<open>Order of rows\<close>




lemma map_sort_key: "map f (sort_key f xs) = sort (map f xs)"
  by (rule properties_for_sort [symmetric]) simp_all

lemma sort_key_perm_map:
  assumes perm: "mset ys = mset xs"
      and K: "\<forall>x \<in> set xs. \<forall>y \<in> set xs. ck x = ck y \<longrightarrow> mk x = mk y"
  shows "map mk (sort_key ck ys) = map mk (sort_key ck xs)"
proof -
  define phi where "phi k = mk (SOME x. x \<in> set xs \<and> ck x = k)" for k
  have phi: "mk x = phi (ck x)" if "x \<in> set xs" for x
  proof -
    let ?y = "SOME y. y \<in> set xs \<and> ck y = ck x"
    have "x \<in> set xs \<and> ck x = ck x" using that by simp
    then have "?y \<in> set xs \<and> ck ?y = ck x" by (rule someI [where P = "\<lambda>y. y \<in> set xs \<and> ck y = ck x"])
    with K that have "mk ?y = mk x" by blast
    then show ?thesis by (simp only: phi_def)
  qed
  have sets: "set ys = set xs" using perm by (rule mset_eq_setD)
  have m: "map mk (sort_key ck zs) = map phi (sort (map ck zs))" if "set zs = set xs" for zs
  proof -
    have "\<forall>x \<in> set (sort_key ck zs). mk x = phi (ck x)" using that phi by simp
    then have "map mk (sort_key ck zs) = map (\<lambda>x. phi (ck x)) (sort_key ck zs)"
      by (simp only: map_eq_conv)
    also have "\<dots> = map phi (map ck (sort_key ck zs))" by (simp only: map_map comp_def)
    finally show ?thesis by (simp only: map_sort_key)
  qed
  have "mset (map ck ys) = mset (map ck xs)" using perm by simp
  then have "sort (map ck ys) = sort (map ck xs)"
    by (metis sorted_list_of_multiset_mset)
  then show ?thesis by (simp only: m [OF sets] m [OF refl])
qed

lemma hashAll_map:
  "hashAll e sel selC tf es acc = Inr (acc @ map (\<lambda>r. projr (hashEntry e sel selC tf r)) es)"
proof (induction es arbitrary: acc)
  case Nil
  then show ?case by simp
next
  case (Cons r es)
  obtain h where "hashEntry e sel selC tf r = Inr h" using hashEntry_Inr by blast
  then show ?case using Cons.IH by simp
qed

lemma hashEntry_fields:
  "merkleHash (projr (hashEntry e sel selC tf r))
     = sha256Hex e (buildHashInput (projr (normalizeEntry e r sel)) selC)
   \<and> canonicalHash (projr (hashEntry e sel selC tf r))
     = sha256Hex e (projr (canonicalizeEntry e r sel))"
proof -
  obtain m where m: "normalizeEntry e r sel = Inr m"
    unfolding normalizeEntry_def using normalizeLoop_Inr by blast
  obtain obj where "canonicalLoop e r (sort_key canonical sel) [] = Inr obj"
    using canonicalLoop_Inr by blast
  then have "canonicalizeEntry e r sel = Inr (stringify obj)"
    by (simp add: canonicalizeEntry_def)
  with m show ?thesis by (simp add: hashEntry_def Let_def)
qed

lemma canonicalizeEntry_Inr: "\<exists>j. canonicalizeEntry e r sel = Inr j"
proof -
  obtain obj where "canonicalLoop e r (sort_key canonical sel) [] = Inr obj"
    using canonicalLoop_Inr by blast
  then show ?thesis by (simp add: canonicalizeEntry_def)
qed

lemma distinct_FIELD_CONFIG: "distinct (map canonical FIELD_CONFIG)"
proof -
  have "map canonical FIELD_CONFIG
          = [str ''title'', str ''username'', str ''password'', str ''last modified'']"
    by (simp add: FIELD_CONFIG_def)
  then show ?thesis by (simp add: str_def)
qed

lemma selected_fields:
  "(\<forall>f \<in> set (getSelectedFields (buildActiveFields e headers) checked). hasHeader f)
   \<and> distinct (map canonical (getSelectedFields (buildActiveFields e headers) checked))"
proof -
  have "map canonical (buildActiveFields e headers) = map canonical FIELD_CONFIG"
    by (simp add: buildActiveFields_def comp_def)
  moreover have "distinct (map canonical FIELD_CONFIG)"
    by (rule distinct_FIELD_CONFIG)
  ultimately have "distinct (map canonical (buildActiveFields e headers))" by simp
  then show ?thesis by (simp add: getSelectedFields_def distinct_map_filter)
qed

lemma buildMerkleTree_root_hashes:
  assumes "map hash l1 = map hash l2"
      and "buildMerkleTree e l1 = Some (Inr (Some t1))"
      and "buildMerkleTree e l2 = Some (Inr (Some t2))"
  shows "root t1 = root t2"
proof -
  let ?n = "\<lambda>leaf. \<lparr>title = title leaf, hash = hash leaf, isDuplicate = False\<rparr>"
  from assms(2) have n1: "l1 \<noteq> []" and b1: "buildLoop e (map ?n l1) [] = Some (Inr t1)"
    by (auto simp: buildMerkleTree_def split: if_splits option.splits sum.splits)
  from assms(3) have b2: "buildLoop e (map ?n l2) [] = Some (Inr t2)"
    by (auto simp: buildMerkleTree_def split: if_splits option.splits sum.splits)
  have "map hash (map ?n l1) = map hash (map ?n l2)" using assms(1) by (simp add: comp_def)
  moreover have "map ?n l1 \<noteq> []" using n1 by simp
  ultimately show ?thesis using b1 b2 by (intro buildLoop_root_hashes [of "map ?n l1" "map ?n l2" e "[]" t1 "[]" t2])
qed

text \<open>
  C1. For every list of headers, every choice of checkboxes that selects at least one
  field, and every list of data rows among whose canonical encodings SHA-256 has no
  collision: the pipeline returns on the rows and on every permutation of them, with
  leaves carrying the same identity hashes in the same order and with trees of the same
  root hash (and a tree is returned when there is a row).
\<close>

theorem computeTree_row_order:
  assumes perm: "mset es' = mset es"
      and sel: "getSelectedFields (buildActiveFields e headers) checked \<noteq> []"
      and nocoll: "inj_on (sha256Hex e)
                     {j. \<exists>r \<in> set es. canonicalizeEntry e r
                           (getSelectedFields (buildActiveFields e headers) checked) = Inr j}"
  shows "\<exists>leaves md leaves' md'.
           computeTree e (buildActiveFields e headers) checked es = Some (Inr (leaves, md))
         \<and> computeTree e (buildActiveFields e headers) checked es' = Some (Inr (leaves', md'))
         \<and> map hash leaves' = map hash leaves
         \<and> map_option root md' = map_option root md
         \<and> (es \<noteq> [] \<longrightarrow> md \<noteq> None)"
proof (cases "es = []")
  case True
  with perm have "es' = []" by simp
  with True show ?thesis by (simp add: computeTree_def)
next
  case False
  with perm have ne': "es' \<noteq> []" by auto
  define af where "af = buildActiveFields e headers"
  define fs where "fs = getSelectedFields af checked"
  define he where "he = (\<lambda>r. projr (hashEntry e fs (map canonical fs) (findTitleField af) r))"
  have fsne: "fs \<noteq> []" using sel by (simp add: fs_def af_def)
  have hdr: "\<forall>f \<in> set fs. hasHeader f" and dist: "distinct (map canonical fs)"
    using selected_fields [of e headers checked] by (simp_all add: fs_def af_def)
  have K: "\<forall>x \<in> set (map he es). \<forall>y \<in> set (map he es).
             canonicalHash x = canonicalHash y \<longrightarrow> merkleHash x = merkleHash y"
  proof (intro ballI impI)
    fix x y assume "x \<in> set (map he es)" "y \<in> set (map he es)"
      and ch: "canonicalHash x = canonicalHash y"
    then obtain r1 r2 where r: "r1 \<in> set es" "r2 \<in> set es" "x = he r1" "y = he r2" by auto
    obtain j1 where j1: "canonicalizeEntry e r1 fs = Inr j1" using canonicalizeEntry_Inr by blast
    obtain j2 where j2: "canonicalizeEntry e r2 fs = Inr j2" using canonicalizeEntry_Inr by blast
    from ch r j1 j2 have "sha256Hex e j1 = sha256Hex e j2"
      by (simp add: he_def hashEntry_fields)
    moreover have "j1 \<in> {j. \<exists>r \<in> set es. canonicalizeEntry e r fs = Inr j}"
      "j2 \<in> {j. \<exists>r \<in> set es. canonicalizeEntry e r fs = Inr j}"
      using r j1 j2 by auto
    moreover have "inj_on (sha256Hex e) {j. \<exists>r \<in> set es. canonicalizeEntry e r fs = Inr j}"
      using nocoll by (simp only: fs_def af_def)
    ultimately have "j1 = j2" by (simp only: inj_on_def)
    with j1 j2 have "canonicalizeEntry e r1 fs = canonicalizeEntry e r2 fs" by simp
    with hdr dist have "normalizeEntry e r1 fs = normalizeEntry e r2 fs"
      by (rule canonicalizeEntry_determines_input)
    then show "merkleHash x = merkleHash y" using r by (simp add: he_def hashEntry_fields)
  qed
  let ?l = "sortedLeafNodes (map he es)" and ?l' = "sortedLeafNodes (map he es')"
  have "mset (map he es') = mset (map he es)" using perm by simp
  then have "map merkleHash (sort_key canonicalHash (map he es'))
             = map merkleHash (sort_key canonicalHash (map he es))"
    using K by (rule sort_key_perm_map)
  then have hashes: "map hash ?l' = map hash ?l"
    by (simp add: sortedLeafNodes_def comp_def)
  have "length ?l = length es" "length ?l' = length es'" by (simp_all add: sortedLeafNodes_def)
  then have "?l \<noteq> []" "?l' \<noteq> []" using False ne' by auto
  then obtain t t' where t: "buildMerkleTree e ?l = Some (Inr (Some t))"
    and t': "buildMerkleTree e ?l' = Some (Inr (Some t'))"
    using buildMerkleTree_returns by blast
  have rt: "root t' = root t" using hashes t' t by (rule buildMerkleTree_root_hashes)
  have c: "computeTree e af checked zs = Some (Inr (sortedLeafNodes (map he zs), Some u))"
    if "zs \<noteq> []" "buildMerkleTree e (sortedLeafNodes (map he zs)) = Some (Inr (Some u))" for zs u
    using that fsne unfolding computeTree_def Let_def
    by (simp add: fs_def [symmetric] hashAll_map he_def [symmetric])
  from c [OF False t] c [OF ne' t'] hashes rt show ?thesis
    unfolding af_def by auto
qed


lemma sample_activeFields:
  "buildActiveFields sampleEnv [str ''Title''] =
     [\<lparr>label = str ''Title'', canonical = str ''title'', headerName = Some (str ''Title'')\<rparr>,
      \<lparr>label = str ''Username'', canonical = str ''username'', headerName = None\<rparr>,
      \<lparr>label = str ''Password'', canonical = str ''password'', headerName = None\<rparr>,
      \<lparr>label = str ''Last Modified'', canonical = str ''last modified'', headerName = None\<rparr>]"
  by code_simp

lemma sample_selected:
  "getSelectedFields (buildActiveFields sampleEnv [str ''Title'']) (\<lambda>c. True) = [sampleField]"
  unfolding sample_activeFields
  by (simp add: getSelectedFields_def hasHeader_def sampleField_def str_def)

lemma sample_canonical_a:
  "canonicalizeEntry sampleEnv [str ''Title'' \<mapsto> str ''a''] [sampleField]
     = Inr (str ''{'' @ [0x22] @ str ''title'' @ [0x22] @ str '':'' @ [0x22] @ str ''a'' @ [0x22] @ str ''}'')"
  by code_simp

lemma sample_canonical_b:
  "canonicalizeEntry sampleEnv [str ''Title'' \<mapsto> str ''b''] [sampleField]
     = Inr (str ''{'' @ [0x22] @ str ''title'' @ [0x22] @ str '':'' @ [0x22] @ str ''b'' @ [0x22] @ str ''}'')"
  by code_simp

lemma sample_no_collision:
  "sha256Hex sampleEnv (str ''{'' @ [0x22] @ str ''title'' @ [0x22] @ str '':'' @ [0x22] @ str ''a'' @ [0x22] @ str ''}'')
     \<noteq> sha256Hex sampleEnv (str ''{'' @ [0x22] @ str ''title'' @ [0x22] @ str '':'' @ [0x22] @ str ''b'' @ [0x22] @ str ''}'')"
  by code_simp

theorem computeTree_row_order_witness:
  "mset [[str ''Title'' \<mapsto> str ''a''], [str ''Title'' \<mapsto> str ''b'']]
     = mset [[str ''Title'' \<mapsto> str ''b''], [str ''Title'' \<mapsto> str ''a'']]
   \<and> getSelectedFields (buildActiveFields sampleEnv [str ''Title'']) (\<lambda>c. True) \<noteq> []
   \<and> (\<exists>leaves md leaves' md'.
         computeTree sampleEnv (buildActiveFields sampleEnv [str ''Title'']) (\<lambda>c. True)
           [[str ''Title'' \<mapsto> str ''b''], [str ''Title'' \<mapsto> str ''a'']] = Some (Inr (leaves, md))
       \<and> computeTree sampleEnv (buildActiveFields sampleEnv [str ''Title'']) (\<lambda>c. True)
           [[str ''Title'' \<mapsto> str ''a''], [str ''Title'' \<mapsto> str ''b'']] = Some (Inr (leaves', md'))
       \<and> map hash leaves' = map hash leaves
       \<and> map_option root md' = map_option root md
       \<and> md \<noteq> None)"
proof -
  let ?a = "[str ''Title'' \<mapsto> str ''a'']" and ?b = "[str ''Title'' \<mapsto> str ''b'']"
  let ?sel = "getSelectedFields (buildActiveFields sampleEnv [str ''Title'']) (\<lambda>c. True)"
  have perm: "mset [?a, ?b] = mset [?b, ?a]" by (simp add: add_mset_commute)
  have sel: "?sel \<noteq> []" by (simp add: sample_selected)
  have inj: "inj_on (sha256Hex sampleEnv)
               {j. \<exists>r \<in> set [?b, ?a]. canonicalizeEntry sampleEnv r ?sel = Inr j}"
    unfolding inj_on_def sample_selected
    using sample_no_collision by (auto simp: sample_canonical_a sample_canonical_b)
  from computeTree_row_order [OF perm sel inj] perm sel show ?thesis by auto
qed

end
